theory Spec2Isabelle
  imports Complex_Main "HOL-Library.Word" "HOL-Library.Multiset" "HOL-Library.Log_Nat"
begin

unbundle bit_operations_syntax

section \<open>The generic hash table (hashtable.c)\<close>

text \<open>
  Conventions of the embedding.
  \<^item> A function of the C code whose behaviour can be undefined (signed overflow, an
    array index out of range) returns an \<open>option\<close>; \<open>None\<close> stands for
    undefined behaviour, and every theorem about a result states that the result is
    \<open>Some\<close>.
  \<^item> A nullable pointer argument is an \<open>option\<close>; \<open>None\<close> is \<open>NULL\<close>.
  \<^item> \<open>malloc\<close> can fail. The allocator is a budget \<open>avail\<close>: the number of further
    requests it grants. Every function that allocates takes the budget and returns what
    is left of it. A request made with budget 0 fails, so a run that ends with a positive
    budget has seen no allocation failure.
  \<^item> A bucket (the chain hanging off \<open>table[i]\<close>) is the list of its (key, value)
    entries, first entry first; the bucket array is the list of the buckets.
  \<^item> \<open>unsigned int\<close> fields are natural numbers; \<open>num_entries++\<close> wraps at \<open>2 ^ 32\<close>
    and the wrap is written out. \<open>size\<close> is only ever assigned from an \<open>int\<close> that
    \<open>getsize\<close> computed without overflow.
  \<^item> \<open>max_loadfactor\<close> is a \<open>float\<close>, taken to be an IEEE 754 single-precision
    number that is finite; it is modelled by the rational number it denotes. The
    conversions \<open>(float) (n + 1)\<close> and \<open>(float) size\<close> and the division round to the
    nearest single-precision number, as they do where \<open>float\<close> expressions are evaluated
    in \<open>float\<close> precision (\<open>FLT_EVAL_METHOD\<close> 0).
\<close>

definition INT_MAX :: int where
  "INT_MAX = 2147483647"

definition EXIT_SUCCESS :: int where
  "EXIT_SUCCESS = 0"

definition EXIT_FAILURE :: int where
  "EXIT_FAILURE = 1"

text \<open>
  Modelled from the spec: the macro \<open>HASH_TABLE_KEY_VALUE_PAIR_EXISTS\<close> is defined in
  hashtable.h, which is absent. The spec calls it a distinguished "already exists" result
  that is not an error; it is taken to be \<open>-1\<close>, a value that is neither
  \<open>EXIT_SUCCESS\<close> nor \<open>EXIT_FAILURE\<close>.
\<close>

definition HASH_TABLE_KEY_VALUE_PAIR_EXISTS :: int where
  "HASH_TABLE_KEY_VALUE_PAIR_EXISTS = - 1"

definition INITIAL_DELTA_INDEX :: nat where
  "INITIAL_DELTA_INDEX = 4"

type_synonym ('k, 'v) HTentry = "'k \<times> 'v"

record ('k, 'v) hashtab =
  table :: "('k, 'v) HTentry list list"
  size_ht :: nat
  num_entries :: nat
  max_loadfactor :: rat
  idx :: nat
  hash :: "'k \<Rightarrow> nat \<Rightarrow> nat"
  cmp :: "'k \<Rightarrow> 'k \<Rightarrow> int"

text \<open>The array of differences between a power of two and the largest prime below it.\<close>

definition delta :: "nat list" where
  "delta = [0, 0, 1, 1, 3, 1, 3, 1, 5, 3, 3, 9, 3, 1, 3,
            19, 15, 1, 5, 1, 3, 9, 3, 15, 3, 39, 5, 39, 57, 3, 35, 1]"

definition MAX_IDX :: nat where
  "MAX_IDX = length delta"

text \<open>\<open>malloc\<close>: whether the request is granted, and the budget that is left.\<close>

definition malloc :: "nat \<Rightarrow> bool \<times> nat" where
  "malloc avail = (0 < avail, avail - 1)"

definition talloc :: "nat \<Rightarrow> nat \<Rightarrow> ('k, 'v) HTentry list list option \<times> nat" where
  "talloc tsize avail =
     (case malloc avail of
        (False, avail') \<Rightarrow> (None, avail')
      | (True, avail') \<Rightarrow> (Some (replicate tsize []), avail'))"

definition ht_init ::
  "rat \<Rightarrow> ('k \<Rightarrow> nat \<Rightarrow> nat) \<Rightarrow> ('k \<Rightarrow> 'k \<Rightarrow> int) \<Rightarrow> nat \<Rightarrow> ('k, 'v) hashtab option \<times> nat" where
  "ht_init loadfactor hash_fn cmp_fn avail =
     (case malloc avail of
        (False, avail1) \<Rightarrow> (None, avail1)
      | (True, avail1) \<Rightarrow>
          (case talloc (2 ^ INITIAL_DELTA_INDEX) avail1 of
             (None, avail2) \<Rightarrow> (None, avail2)
           | (Some t, avail2) \<Rightarrow>
               (Some \<lparr>table = t, size_ht = 13, num_entries = 0,
                      max_loadfactor = loadfactor, idx = INITIAL_DELTA_INDEX,
                      hash = hash_fn, cmp = cmp_fn\<rparr>, avail2)))"

text \<open>
  The \<open>while (number < size_now)\<close> loop of \<open>getsize\<close>. \<open>number\<close> and \<open>pow\<close> are
  C \<open>int\<close>s; doubling \<open>number\<close> beyond \<open>INT_MAX\<close> is undefined.
\<close>

partial_function (option) getsize_loop :: "int \<Rightarrow> int \<Rightarrow> int \<Rightarrow> (int \<times> int) option" where
  "getsize_loop size_now number pow =
     (if number < size_now
      then (if INT_MAX < number * 2 then None
            else getsize_loop size_now (number * 2) (pow + 1))
      else Some (number, pow))"

declare getsize_loop.simps [code]

definition getsize :: "('k, 'v) hashtab \<Rightarrow> int option" where
  "getsize ht =
     (case getsize_loop (int (size_ht ht)) 2 1 of
        None \<Rightarrow> None
      | Some (number, pow) \<Rightarrow>
          (let pow' = pow + 1 in
           if INT_MAX < number * 2 \<or> pow' < 0 \<or> int MAX_IDX \<le> pow' then None
           else Some (number * 2 - int (delta ! nat pow'))))"

text \<open>
  The inner \<open>while (current_ent != NULL)\<close> loop of \<open>rehash\<close>: every entry of one old
  chain is copied to the front of its chain in \<open>future_table\<close>. The result is
  \<open>None\<close> when \<open>future_table\<close> is indexed out of range, \<open>Some (None, _)\<close> when an
  allocation fails (the C code returns at once), \<open>Some (Some future_table, _)\<close> otherwise.
\<close>

fun rehash_chain ::
  "('k \<Rightarrow> nat \<Rightarrow> nat) \<Rightarrow> nat \<Rightarrow> ('k, 'v) HTentry list \<Rightarrow> ('k, 'v) HTentry list list \<Rightarrow> nat
     \<Rightarrow> (('k, 'v) HTentry list list option \<times> nat) option" where
  "rehash_chain hash_fn updated_size [] future_table avail = Some (Some future_table, avail)"
| "rehash_chain hash_fn updated_size (current_ent # rest) future_table avail =
     (let new_hash_val = hash_fn (fst current_ent) updated_size in
      case malloc avail of
        (False, avail') \<Rightarrow> Some (None, avail')
      | (True, avail') \<Rightarrow>
          if length future_table \<le> new_hash_val then None
          else rehash_chain hash_fn updated_size rest
                 (future_table[new_hash_val := current_ent # future_table ! new_hash_val])
                 avail')"

text \<open>The outer \<open>for (j = 0; j < ht->size; j++)\<close> loop, over the old buckets in order.\<close>

fun rehash_buckets ::
  "('k \<Rightarrow> nat \<Rightarrow> nat) \<Rightarrow> nat \<Rightarrow> ('k, 'v) HTentry list list \<Rightarrow> ('k, 'v) HTentry list list \<Rightarrow> nat
     \<Rightarrow> (('k, 'v) HTentry list list option \<times> nat) option" where
  "rehash_buckets hash_fn updated_size [] future_table avail = Some (Some future_table, avail)"
| "rehash_buckets hash_fn updated_size (bucket # buckets) future_table avail =
     (case rehash_chain hash_fn updated_size bucket future_table avail of
        None \<Rightarrow> None
      | Some (None, avail') \<Rightarrow> Some (None, avail')
      | Some (Some future_table', avail') \<Rightarrow>
          rehash_buckets hash_fn updated_size buckets future_table' avail')"

text \<open>
  \<open>rehash\<close> leaves the table as it was when an allocation fails; otherwise it installs
  the new bucket array and the new size. \<open>num_entries\<close> is not touched.
\<close>

definition rehash :: "('k, 'v) hashtab \<Rightarrow> nat \<Rightarrow> (('k, 'v) hashtab \<times> nat) option" where
  "rehash ht avail =
     (case getsize ht of
        None \<Rightarrow> None
      | Some updated_size \<Rightarrow>
          (case malloc avail of
             (False, avail1) \<Rightarrow> Some (ht, avail1)
           | (True, avail1) \<Rightarrow>
               if length (table ht) < size_ht ht then None
               else
                 (case rehash_buckets (hash ht) (nat updated_size)
                         (take (size_ht ht) (table ht))
                         (replicate (nat updated_size) []) avail1 of
                    None \<Rightarrow> None
                  | Some (None, avail2) \<Rightarrow> Some (ht, avail2)
                  | Some (Some future_table, avail2) \<Rightarrow>
                      Some (ht\<lparr>table := future_table, size_ht := nat updated_size\<rparr>, avail2))))"

text \<open>
  Single-precision arithmetic. A number that is not zero lies in one binade
  \<open>2 ^ e \<le> \<bar>x\<bar> < 2 ^ (e + 1)\<close>, and is rounded to the nearest multiple of
  \<open>2 ^ (e - 23)\<close>, to the even one of two that are equally near. \<open>f32_exponent\<close> finds
  \<open>e\<close> from the bit lengths of the numerator and the denominator. The range of the
  exponent is not modelled: the quotient of two \<open>unsigned int\<close> values that are not zero
  lies between \<open>2 ^ - 32\<close> and \<open>2 ^ 32\<close>, far from overflow and from the subnormal
  numbers.
\<close>

definition round_even :: "rat \<Rightarrow> int" where
  "round_even m =
     (if m - of_int \<lfloor>m\<rfloor> < 1 / 2 then \<lfloor>m\<rfloor>
      else if 1 / 2 < m - of_int \<lfloor>m\<rfloor> then \<lfloor>m\<rfloor> + 1
      else if even \<lfloor>m\<rfloor> then \<lfloor>m\<rfloor> else \<lfloor>m\<rfloor> + 1)"

definition f32_exponent :: "rat \<Rightarrow> int" where
  "f32_exponent x =
     (case quotient_of x of
        (p, q) \<Rightarrow>
          if rat_of_int p < 2 powi (bitlen p - bitlen q) * rat_of_int q
          then bitlen p - bitlen q - 1 else bitlen p - bitlen q)"

definition f32_round :: "rat \<Rightarrow> rat" where
  "f32_round x =
     (if x = 0 then 0
      else sgn x * rat_of_int (round_even (\<bar>x\<bar> * 2 powi (23 - f32_exponent \<bar>x\<bar>)))
             * 2 powi (f32_exponent \<bar>x\<bar> - 23))"

text \<open>The conversion \<open>(float) n\<close> of an \<open>unsigned int\<close> and the division of two floats.\<close>

definition f32_of_nat :: "nat \<Rightarrow> rat" where
  "f32_of_nat n = f32_round (rat_of_nat n)"

definition f32_div :: "rat \<Rightarrow> rat \<Rightarrow> rat" where
  "f32_div a b = f32_round (a / b)"

text \<open>
  The comparison \<open>a / b > L\<close> of a quotient of floats, \<open>a\<close> not negative, with a finite
  float. A divisor 0 makes the quotient an infinity, which exceeds every finite float, or
  (when \<open>a\<close> is 0 too) a NaN, which exceeds nothing.
\<close>

definition f32_quotient_gt :: "rat \<Rightarrow> rat \<Rightarrow> rat \<Rightarrow> bool" where
  "f32_quotient_gt a b L = (if b = 0 then 0 < a else L < f32_div a b)"

text \<open>The \<open>while (present_entry != NULL)\<close> loop of \<open>ht_insert\<close>: is an equal key in the chain?\<close>

fun chain_has_key :: "('k \<Rightarrow> 'k \<Rightarrow> int) \<Rightarrow> 'k \<Rightarrow> ('k, 'v) HTentry list \<Rightarrow> bool" where
  "chain_has_key cmp_fn key [] = False"
| "chain_has_key cmp_fn key (present_entry # rest) =
     (if cmp_fn key (fst present_entry) = 0 then True else chain_has_key cmp_fn key rest)"

text \<open>
  \<open>ht_insert\<close>. The test \<open>potential_new_loadfactor > ht->max_loadfactor\<close> compares
  the quotient of \<open>(float) (ht->num_entries + 1)\<close> and \<open>(float) ht->size\<close>, computed in
  single precision, with the maximum load factor.
\<close>

definition ht_insert ::
  "('k, 'v) hashtab option \<Rightarrow> 'k option \<Rightarrow> 'v option \<Rightarrow> nat
     \<Rightarrow> (int \<times> ('k, 'v) hashtab option \<times> nat) option" where
  "ht_insert htp keyp valuep avail =
     (case (htp, keyp, valuep) of
        (Some ht, Some key, Some val) \<Rightarrow>
          (case malloc avail of
             (False, avail1) \<Rightarrow> Some (EXIT_FAILURE, Some ht, avail1)
           | (True, avail1) \<Rightarrow>
               (case (if f32_quotient_gt (f32_of_nat ((num_entries ht + 1) mod 2 ^ 32))
                            (f32_of_nat (size_ht ht)) (max_loadfactor ht)
                      then rehash ht avail1 else Some (ht, avail1)) of
                  None \<Rightarrow> None
                | Some (ht1, avail2) \<Rightarrow>
                    (let hash_val = hash ht1 key (size_ht ht1) in
                     if length (table ht1) \<le> hash_val then None
                     else if chain_has_key (cmp ht1) key (table ht1 ! hash_val)
                     then Some (HASH_TABLE_KEY_VALUE_PAIR_EXISTS, Some ht1, avail2)
                     else Some (EXIT_SUCCESS,
                            Some (ht1\<lparr>table := (table ht1)[hash_val := (key, val) # table ht1 ! hash_val],
                                      num_entries := (num_entries ht1 + 1) mod 2 ^ 32\<rparr>),
                            avail2))))
      | _ \<Rightarrow> Some (EXIT_FAILURE, htp, avail))"

text \<open>The \<open>for\<close> loop of \<open>ht_search\<close>: the value of the first entry with an equal key.\<close>

fun chain_search :: "('k \<Rightarrow> 'k \<Rightarrow> int) \<Rightarrow> 'k \<Rightarrow> ('k, 'v) HTentry list \<Rightarrow> 'v option" where
  "chain_search cmp_fn key [] = None"
| "chain_search cmp_fn key (p # rest) =
     (if cmp_fn key (fst p) = 0 then Some (snd p) else chain_search cmp_fn key rest)"

definition ht_search :: "('k, 'v) hashtab option \<Rightarrow> 'k option \<Rightarrow> 'v option option" where
  "ht_search htp keyp =
     (case (htp, keyp) of
        (Some ht, Some key) \<Rightarrow>
          (let k = hash ht key (size_ht ht) in
           if length (table ht) \<le> k then None
           else Some (chain_search (cmp ht) key (table ht ! k)))
      | _ \<Rightarrow> Some None)"

text \<open>
  \<open>ht_free\<close> visits and releases every entry; nothing of it is observable in this model
  but its return code. \<open>freekey\<close> and \<open>freeval\<close> say whether the two function
  pointers are non-null.
\<close>

definition ht_free :: "('k, 'v) hashtab option \<Rightarrow> bool \<Rightarrow> bool \<Rightarrow> int" where
  "ht_free htp freekey freeval =
     (if \<not> (htp \<noteq> None \<and> freekey \<and> freeval) then EXIT_FAILURE else EXIT_SUCCESS)"

text \<open>
  A client of the hash table makes a sequence of \<open>ht_insert\<close> calls on one table.
  \<open>ht_inserts\<close> runs such a sequence on a table that exists, with keys and values that
  are not null, and collects the return codes.
\<close>

fun ht_inserts ::
  "('k, 'v) hashtab \<Rightarrow> ('k \<times> 'v) list \<Rightarrow> nat \<Rightarrow> (int list \<times> ('k, 'v) hashtab \<times> nat) option" where
  "ht_inserts ht [] avail = Some ([], ht, avail)"
| "ht_inserts ht (kv # kvs) avail =
     (case ht_insert (Some ht) (Some (fst kv)) (Some (snd kv)) avail of
        None \<Rightarrow> None
      | Some (r, None, avail1) \<Rightarrow> None
      | Some (r, Some ht1, avail1) \<Rightarrow>
          (case ht_inserts ht1 kvs avail1 of
             None \<Rightarrow> None
           | Some (rs, ht2, avail2) \<Rightarrow> Some (r # rs, ht2, avail2)))"

section \<open>The symbol table (symboltable.c)\<close>

text \<open>
  Modelled from the spec: the header that declares \<open>IDPropt\<close>, the value types and the
  macros \<open>IS_CALLABLE_TYPE\<close> and \<open>IS_VARIABLE\<close> is absent. The spec says that a
  property denotes either a callable (a subroutine) or a variable, a variable being a
  property that is not callable, and that a variable carries an offset. The value type is
  a set of flags with one flag, \<open>TYPE_CALLABLE\<close>, for callables.
\<close>

definition TYPE_CALLABLE :: nat where
  "TYPE_CALLABLE = 8"

definition IS_CALLABLE_TYPE :: "nat \<Rightarrow> bool" where
  "IS_CALLABLE_TYPE t \<longleftrightarrow> (t AND TYPE_CALLABLE) = TYPE_CALLABLE"

definition IS_VARIABLE :: "nat \<Rightarrow> bool" where
  "IS_VARIABLE t \<longleftrightarrow> \<not> IS_CALLABLE_TYPE t"

record IDPropt =
  valtype :: nat
  offset :: nat

text \<open>
  A C string is the list of its characters before the terminating NUL. \<open>strcmp\<close>
  compares as \<open>unsigned char\<close>; only the sign of its result is specified.
\<close>

fun strcmp :: "string \<Rightarrow> string \<Rightarrow> int" where
  "strcmp [] [] = 0"
| "strcmp [] (y # ys) = - 1"
| "strcmp (x # xs) [] = 1"
| "strcmp (x # xs) (y # ys) =
     (if x = y then strcmp xs ys else int (of_char x) - int (of_char y))"

definition key_strcmp :: "string \<Rightarrow> string \<Rightarrow> int" where
  "key_strcmp val1 val2 = strcmp val1 val2"

text \<open>
  \<open>shift_hash\<close>, as compiled without \<open>DEBUG_SYMBOL_TABLE\<close>: a rotation by five bits
  and an addition per character, in \<open>unsigned int\<close> arithmetic. A plain \<open>char\<close> is
  signed, so a character above 127 is sign-extended.
\<close>

definition char_to_uint :: "char \<Rightarrow> 32 word" where
  "char_to_uint c =
     (if (of_char c :: nat) < 128 then of_nat (of_char c) else of_nat (of_char c) - 256)"

fun shift_hash_loop :: "string \<Rightarrow> 32 word \<Rightarrow> 32 word" where
  "shift_hash_loop [] h = h"
| "shift_hash_loop (c # keystr) h =
     shift_hash_loop keystr ((push_bit 5 h OR drop_bit 27 h) + char_to_uint c)"

definition shift_hash :: "string \<Rightarrow> nat \<Rightarrow> nat" where
  "shift_hash key sz = unat (shift_hash_loop key 0) mod sz"

text \<open>
  The static variables of symboltable.c, the store of the \<open>IDPropt\<close> objects the tables
  point to (a table holds addresses; an address is a natural number), and the allocator's
  budget. \<open>free\<close> is not modelled: the store keeps an object after its release, and no
  theorem reads a released object.
\<close>

record symtab =
  sym_table :: "(string, nat) hashtab option"
  saved_table :: "(string, nat) hashtab option"
  curr_offset :: nat
  props :: "nat \<Rightarrow> IDPropt"
  avail :: nat

text \<open>The state at program start: the static variables are zero.\<close>

definition symtab_start :: "(nat \<Rightarrow> IDPropt) \<Rightarrow> nat \<Rightarrow> symtab" where
  "symtab_start store n =
     \<lparr>sym_table = None, saved_table = None, curr_offset = 0, props = store, avail = n\<rparr>"

text \<open>
  Modelled from the spec: \<open>eprintf\<close> belongs to the error reporter, which is absent and
  which terminates the compilation. \<open>init_symbol_table\<close> is \<open>None\<close> when it is called.
\<close>

definition init_symbol_table :: "symtab \<Rightarrow> symtab option" where
  "init_symbol_table st =
     (case ht_init (3 / 4) shift_hash key_strcmp (avail st) of
        (None, avail') \<Rightarrow> None
      | (Some t, avail') \<Rightarrow>
          Some (st\<lparr>saved_table := None, sym_table := Some t, curr_offset := 1, avail := avail'\<rparr>))"

text \<open>
  The functions below return \<open>None\<close> when the hash table's behaviour is undefined, and
  otherwise their \<open>Boolean\<close> result with the new state.
\<close>

definition open_subroutine :: "symtab \<Rightarrow> string option \<Rightarrow> nat option \<Rightarrow> (bool \<times> symtab) option" where
  "open_subroutine st id' prop =
     (if sym_table st = None then Some (False, st)
      else
        (case ht_insert (sym_table st) id' prop (avail st) of
           None \<Rightarrow> None
         | Some (r, t', avail1) \<Rightarrow>
             if r \<noteq> EXIT_SUCCESS then Some (False, st\<lparr>sym_table := t', avail := avail1\<rparr>)
             else
               (case ht_init (3 / 4) shift_hash key_strcmp avail1 of
                  (None, avail2) \<Rightarrow>
                    Some (False, st\<lparr>saved_table := t', sym_table := None, avail := avail2\<rparr>)
                | (Some t2, avail2) \<Rightarrow>
                    Some (True, st\<lparr>saved_table := t', sym_table := Some t2,
                                   curr_offset := 1, avail := avail2\<rparr>))))"

definition release_symbol_table :: "symtab \<Rightarrow> symtab" where
  "release_symbol_table st =
     (if sym_table st \<noteq> None
      then (let r = ht_free (sym_table st) True True in st)
      else st)"

definition close_subroutine :: "symtab \<Rightarrow> symtab" where
  "close_subroutine st =
     (let st1 = (if sym_table st \<noteq> None
                 then (release_symbol_table st)\<lparr>sym_table := saved_table st, saved_table := None\<rparr>
                 else st)
      in st1\<lparr>curr_offset := 0\<rparr>)"

definition insert_name :: "symtab \<Rightarrow> string option \<Rightarrow> nat option \<Rightarrow> (bool \<times> symtab) option" where
  "insert_name st id' prop =
     (if sym_table st = None then Some (False, st)
      else
        (case ht_insert (sym_table st) id' prop (avail st) of
           None \<Rightarrow> None
         | Some (r, t', avail') \<Rightarrow>
             if r \<noteq> EXIT_SUCCESS then Some (False, st\<lparr>sym_table := t', avail := avail'\<rparr>)
             else
               (let st1 = st\<lparr>sym_table := t', avail := avail'\<rparr>; p = the prop in
                if IS_VARIABLE (valtype (props st1 p))
                then Some (True, st1\<lparr>props := (props st1)(p := (props st1 p)\<lparr>offset := curr_offset st1\<rparr>),
                                     curr_offset := (curr_offset st1 + 1) mod 2 ^ 32\<rparr>)
                else Some (True, st1))))"

definition find_name :: "symtab \<Rightarrow> string option \<Rightarrow> (bool \<times> nat option) option" where
  "find_name st id' =
     (case ht_search (sym_table st) id' of
        None \<Rightarrow> None
      | Some prop \<Rightarrow>
          if prop = None \<and> saved_table st \<noteq> None then
            (case ht_search (saved_table st) id' of
               None \<Rightarrow> None
             | Some prop' \<Rightarrow>
                 (let prop'' = (if prop' \<noteq> None \<and> \<not> IS_CALLABLE_TYPE (valtype (props st (the prop')))
                                then None else prop')
                  in Some (prop'' \<noteq> None, prop'')))
          else Some (prop \<noteq> None, prop))"

text \<open>
  \<open>get_variables_width\<close> returns the \<open>unsigned int\<close> counter as an \<open>int\<close>; a counter
  above \<open>INT_MAX\<close> comes out negative.
\<close>

definition get_variables_width :: "symtab \<Rightarrow> int" where
  "get_variables_width st =
     (if int (curr_offset st) \<le> INT_MAX then int (curr_offset st)
      else int (curr_offset st) - 2 ^ 32)"

text \<open>
  The client of the symbol table (the parser) makes a sequence of calls.
  \<open>symtab_calls\<close> runs such a sequence and collects the \<open>Boolean\<close> results;
  \<open>close_subroutine\<close> returns nothing and is recorded as \<open>True\<close>.
\<close>

datatype symtab_call =
    Insert_name string nat
  | Open_subroutine string nat
  | Close_subroutine

fun symtab_step :: "symtab \<Rightarrow> symtab_call \<Rightarrow> (bool \<times> symtab) option" where
  "symtab_step st (Insert_name id' p) = insert_name st (Some id') (Some p)"
| "symtab_step st (Open_subroutine id' p) = open_subroutine st (Some id') (Some p)"
| "symtab_step st Close_subroutine = Some (True, close_subroutine st)"

fun symtab_calls :: "symtab \<Rightarrow> symtab_call list \<Rightarrow> (bool list \<times> symtab) option" where
  "symtab_calls st [] = Some ([], st)"
| "symtab_calls st (c # cs) =
     (case symtab_step st c of
        None \<Rightarrow> None
      | Some (b, st1) \<Rightarrow>
          (case symtab_calls st1 cs of
             None \<Rightarrow> None
           | Some (bs, st2) \<Rightarrow> Some (b # bs, st2)))"

section \<open>The scanner (scanner.c)\<close>

text \<open>
  The source file is the list of the bytes not yet read. The next character \<open>ch\<close> is an
  \<open>int\<close>: a byte, or \<open>EOF\<close>. The line and column counters are C \<open>int\<close>s; they are
  modelled as unbounded integers, which is what the code computes on an input of fewer
  than \<open>2 ^ 31\<close> bytes. As in the hash table, \<open>None\<close> stands for undefined
  behaviour.
\<close>

definition EOF :: int where
  "EOF = - 1"

text \<open>
  Modelled from the spec: token.h, which declares \<open>TokenType\<close>, \<open>Token\<close> and
  \<open>MAX_ID_LEN\<close>, and error.h, which declares \<open>SourcePos\<close> and the global \<open>position\<close>,
  are absent. A token has a tag and a payload that depends on the tag: an integer value,
  the text of an identifier (at most \<open>MAX_ID_LEN\<close> characters), or a string. The token
  types are the ones scanner.c names.
\<close>

datatype TokenType =
    TOK_EOF | TOK_ID | TOK_NUM | TOK_STR
  | TOK_AND | TOK_ARRAY | TOK_BOOL | TOK_CHILLAX | TOK_ELIF | TOK_ELSE | TOK_END
  | TOK_FALSE | TOK_IF | TOK_INPUT | TOK_INT | TOK_LET | TOK_MAIN | TOK_NOT | TOK_OR
  | TOK_OUTPUT | TOK_PROGRAM | TOK_REM | TOK_RETURN | TOK_TRUE | TOK_WHILE
  | TOK_EQ | TOK_PLUS | TOK_MUL | TOK_COLON | TOK_COMMA | TOK_DOTDOT
  | TOK_LBRACK | TOK_RBRACK | TOK_LPAREN | TOK_RPAREN | TOK_SEMICOLON
  | TOK_GE | TOK_GT | TOK_LE | TOK_LT | TOK_NE | TOK_DIV | TOK_ARROW | TOK_MINUS

definition MAX_ID_LEN :: nat where
  "MAX_ID_LEN = 32"

record Token =
  tok_type :: TokenType
  tok_value :: int
  tok_lexeme :: string
  tok_string :: string

record SourcePos =
  line :: int
  col :: int

text \<open>
  Modelled from the spec: \<open>leprintf\<close> belongs to the error reporter, which is absent. It
  prints a diagnostic at the global \<open>position\<close> and terminates the compilation, except
  for "number too large" and "identifier too long", after which it returns. A call that
  terminates is a \<open>lex_error\<close> (the position it would print is not part of the value); a
  call that returns adds its message to \<open>reported\<close>.
\<close>

datatype lex_error =
    IllegalCharacter int
  | NonPrintableInString int
  | IllegalEscape int
  | UnterminatedString
  | UnterminatedComment

record scanner =
  src_file :: string
  ch :: int
  cn :: int
  ln :: int
  posit :: SourcePos
  position :: SourcePos
  reported :: "string list"
  usable :: "nat \<Rightarrow> nat"

text \<open>
  The first six fields are the static variables of scanner.c and the global \<open>position\<close>.
  The last field is the allocator of the C library as \<open>process_string\<close> meets it, which
  does not test what \<open>malloc\<close> and \<open>realloc\<close> return: \<open>usable n\<close> is the number of
  bytes that can be stored in the block these return for a request of \<open>n\<close> bytes, and is
  0 when they return a null pointer. C promises no more than \<open>n\<close> bytes with a block;
  an allocator that rounds the sizes of its blocks up has room for some more. A store at
  an index that is not below \<open>usable n\<close> is undefined behaviour.
\<close>

definition reserved :: "(string \<times> TokenType) list" where
  "reserved =
     [(''and'', TOK_AND), (''array'', TOK_ARRAY), (''bool'', TOK_BOOL),
      (''chillax'', TOK_CHILLAX), (''elif'', TOK_ELIF), (''else'', TOK_ELSE),
      (''end'', TOK_END), (''false'', TOK_FALSE), (''if'', TOK_IF), (''input'', TOK_INPUT),
      (''int'', TOK_INT), (''let'', TOK_LET), (''main'', TOK_MAIN), (''not'', TOK_NOT),
      (''or'', TOK_OR), (''output'', TOK_OUTPUT), (''program'', TOK_PROGRAM),
      (''rem'', TOK_REM), (''return'', TOK_RETURN), (''true'', TOK_TRUE),
      (''while'', TOK_WHILE)]"

definition NUM_RESERVED_WORDS :: nat where
  "NUM_RESERVED_WORDS = length reserved"

text \<open>The character classes of ctype.h in the C locale.\<close>

definition isspace :: "int \<Rightarrow> bool" where
  "isspace c \<longleftrightarrow> c = 32 \<or> (9 \<le> c \<and> c \<le> 13)"

definition isdigit :: "int \<Rightarrow> bool" where
  "isdigit c \<longleftrightarrow> 48 \<le> c \<and> c \<le> 57"

definition isalpha :: "int \<Rightarrow> bool" where
  "isalpha c \<longleftrightarrow> (65 \<le> c \<and> c \<le> 90) \<or> (97 \<le> c \<and> c \<le> 122)"

definition isascii :: "int \<Rightarrow> bool" where
  "isascii c \<longleftrightarrow> 0 \<le> c \<and> c \<le> 127"

definition getc :: "string \<Rightarrow> int \<times> string" where
  "getc f = (case f of [] \<Rightarrow> (EOF, []) | c # cs \<Rightarrow> (int (of_char c), cs))"

definition next_char :: "scanner \<Rightarrow> scanner" where
  "next_char s =
     (let s1 = s\<lparr>src_file := snd (getc (src_file s)), ch := fst (getc (src_file s))\<rparr> in
      if ch s1 = 10
      then s1\<lparr>posit := \<lparr>line = ln s1, col = cn s1\<rparr>, ln := ln s1 + 1, cn := 0\<rparr>
      else s1\<lparr>cn := cn s1 + 1\<rparr>)"

text \<open>
  The static variables are zero at program start. \<open>init_scanner\<close> sets the file, the
  counters and the position, and reads the first character.
\<close>

definition init_scanner :: "scanner \<Rightarrow> string \<Rightarrow> scanner" where
  "init_scanner s in_file =
     next_char (s\<lparr>src_file := in_file, ln := 1, cn := 0, position := \<lparr>line = 1, col = 0\<rparr>\<rparr>)"

text \<open>
  The scanner at program start, with an allocator that gives what C promises and no more,
  and a token the caller has not filled yet.
\<close>

definition scanner_start :: scanner where
  "scanner_start =
     \<lparr>src_file = [], ch = 0, cn = 0, ln = 0, posit = \<lparr>line = 0, col = 0\<rparr>,
      position = \<lparr>line = 0, col = 0\<rparr>, reported = [], usable = id\<rparr>"

definition token_start :: Token where
  "token_start = \<lparr>tok_type = TOK_EOF, tok_value = 0, tok_lexeme = [], tok_string = []\<rparr>"

text \<open>
  The \<open>while (isspace(ch))\<close> loop of \<open>get_token\<close>, with the flag \<open>is_it\<close>.
  \<open>isspace\<close> holds of the five characters the first branch tests and of the tab, so the
  second branch is the tab's.
\<close>

function get_token_whitespace :: "scanner \<Rightarrow> int \<Rightarrow> scanner \<times> int" where
  "get_token_whitespace s is_it =
     (if isspace (ch s) then
        (if ch s = 32 \<or> ch s = 13 \<or> ch s = 11 \<or> ch s = 10 \<or> ch s = 12 then
           (if ch (next_char s) = EOF
            then get_token_whitespace
                   ((next_char s)\<lparr>position :=
                      (posit (next_char s))\<lparr>col := col (posit (next_char s)) + 1\<rparr>\<rparr>) 1
            else get_token_whitespace (next_char s) is_it)
         else
           get_token_whitespace
             ((next_char s)\<lparr>position :=
                (position (next_char s))\<lparr>col := col (position (next_char s)) + 3\<rparr>\<rparr>) is_it)
      else (s, is_it))"
  by pat_completeness auto
termination
  by (relation "measure (\<lambda>(s, i). length (src_file s) + (if isspace (ch s) then 1 else 0))")
     (auto simp: next_char_def getc_def Let_def isspace_def EOF_def split: list.splits)

text \<open>
  \<open>int\<close> arithmetic as the overflow test of \<open>process_number\<close> presupposes it: two's
  complement, wrapping at 32 bits.
\<close>

definition wrap_int :: "int \<Rightarrow> int" where
  "wrap_int x = sint (word_of_int x :: 32 word)"

text \<open>The \<open>while (true)\<close> loop of \<open>process_number\<close>, on the scanner, \<open>value\<close> and \<open>d\<close>.\<close>

function process_number_loop :: "scanner \<Rightarrow> int \<Rightarrow> int \<Rightarrow> scanner \<times> int" where
  "process_number_loop s val d =
     (if wrap_int (10 * val + d) < 0 \<or> INT_MAX < wrap_int (10 * val + d)
      then (s\<lparr>reported := reported s @ [''number too large'']\<rparr>, val)
      else if \<not> isdigit (ch (next_char s)) then (next_char s, wrap_int (10 * val + d))
      else process_number_loop (next_char s) (wrap_int (10 * val + d)) (ch (next_char s) - 48))"
  by pat_completeness auto
termination
  by (relation "measure (\<lambda>(s, v, d). length (src_file s))")
     (auto simp: next_char_def getc_def Let_def isdigit_def EOF_def split: list.splits)

definition process_number :: "scanner \<Rightarrow> Token \<Rightarrow> Token \<times> scanner" where
  "process_number s token =
     (case process_number_loop s 0 (ch s - 48) of
        (s', val) \<Rightarrow> (token\<lparr>tok_type := TOK_NUM, tok_value := val\<rparr>, s'))"

definition MAX_INIT_STR_LEN :: nat where
  "MAX_INIT_STR_LEN = 1024"

text \<open>
  The body of \<open>if (ch == 92)\<close> in \<open>process_string\<close>: the backslash is stored at index
  \<open>i\<close>, the next character is read and must be one of \<open>n\<close>, \<open>t\<close>, \<open>"\<close> and
  \<open>\\<close>. The two assignments to \<open>ch\<close> in the \<open>switch\<close> store the value \<open>ch\<close>
  already has. \<open>updated_string\<close> is the list of the characters stored so far, at the
  indices below \<open>i\<close>, so that \<open>i\<close> is its length; \<open>cap\<close> is the number of bytes the
  block can hold.
\<close>

definition process_string_escape ::
  "scanner \<Rightarrow> string \<Rightarrow> nat \<Rightarrow> (lex_error + scanner \<times> string) option" where
  "process_string_escape s updated_string cap =
     (if ch s = 92 then
        (if cap \<le> length updated_string then None
         else if ch (next_char s) = 110 \<or> ch (next_char s) = 116
                 \<or> ch (next_char s) = 34 \<or> ch (next_char s) = 92
         then Some (Inr (next_char s, updated_string @ [CHR 0x5C]))
         else Some (Inl (IllegalEscape (ch (next_char s)))))
      else Some (Inr (s, updated_string)))"

text \<open>
  The \<open>while (ch != '"')\<close> loop of \<open>process_string\<close>. When \<open>i\<close> has reached
  \<open>nstring\<close>, \<open>nstring\<close> is doubled and the block is reallocated; then \<open>ch\<close> is stored
  at index \<open>i\<close>. (\<open>nstring\<close> is a \<open>size_t\<close>; it is doubled only after as many
  characters have been read, so it does not wrap.)
\<close>

function process_string_loop ::
  "scanner \<Rightarrow> string \<Rightarrow> nat \<Rightarrow> nat \<Rightarrow> (lex_error + scanner \<times> string) option" where
  "process_string_loop s updated_string nstring cap =
     (if ch s = 34 then Some (Inr (s, updated_string))
      else if (\<not> isascii (ch s) \<or> ch s < 32) \<and> ch s \<noteq> 10 \<and> ch s \<noteq> - 1
      then Some (Inl (NonPrintableInString (ch s)))
      else if ch s = 10 then Some (Inl (NonPrintableInString 10))
      else
        (case process_string_escape s updated_string cap of
           None \<Rightarrow> None
         | Some (Inl e) \<Rightarrow> Some (Inl e)
         | Some (Inr (s2, str2)) \<Rightarrow>
             if (if length str2 = nstring then usable s (2 * nstring) else cap) \<le> length str2
             then None
             else if ch (next_char s2) = EOF then Some (Inl UnterminatedString)
             else process_string_loop
                    ((next_char s2)\<lparr>position := \<lparr>line = ln (next_char s2), col = cn (next_char s2)\<rparr>\<rparr>)
                    (str2 @ [char_of (ch s2)])
                    (if length str2 = nstring then 2 * nstring else nstring)
                    (if length str2 = nstring then usable s (2 * nstring) else cap)))"
  by pat_completeness auto

lemma process_string_escape_src:
  "process_string_escape s u c = Some (Inr (s2, u2)) \<Longrightarrow> length (src_file s2) \<le> length (src_file s)"
  by (auto simp: process_string_escape_def next_char_def getc_def Let_def
           split: if_splits list.splits)

lemma next_char_src:
  "ch (next_char s) \<noteq> EOF \<Longrightarrow> length (src_file (next_char s)) < length (src_file s)"
  by (auto simp: next_char_def getc_def Let_def EOF_def split: if_splits list.splits)

termination process_string_loop
proof (relation "measure (\<lambda>(s, u, n, c). length (src_file s))")
  show "wf (measure (\<lambda>(s, u, n, c). length (src_file s)))"
    by simp
next
  fix s :: scanner and updated_string :: string and nstring cap :: nat and x2 x3 s2 str2
  assume "process_string_escape s updated_string cap = Some x2" "x2 = Inr x3" "(s2, str2) = x3"
    and "ch (next_char s2) \<noteq> EOF"
  then have "length (src_file (next_char s2)) < length (src_file s)"
    using process_string_escape_src [of s updated_string cap s2 str2] next_char_src [of s2]
    by simp
  then show "(((next_char s2)\<lparr>position := \<lparr>line = ln (next_char s2), col = cn (next_char s2)\<rparr>\<rparr>,
               str2 @ [char_of (ch s2)],
               if length str2 = nstring then 2 * nstring else nstring,
               if length str2 = nstring then usable s (2 * nstring) else cap),
              s, updated_string, nstring, cap)
             \<in> measure (\<lambda>(s, u, n, c). length (src_file s))"
    by simp
qed

text \<open>
  \<open>process_string\<close>. The block is requested with \<open>MAX_INIT_STR_LEN\<close> bytes; the
  \<open>for\<close> loop zeroes the indices below \<open>MAX_INIT_STR_LEN\<close> and the next statement the
  index \<open>MAX_INIT_STR_LEN\<close> itself, which is one more byte than was requested. The token
  points to the block. The characters stored are not zero, so the C string the token
  points to is \<open>updated_string\<close> if it ends at a zeroed index, that is, if it has at
  most \<open>MAX_INIT_STR_LEN\<close> characters; a longer one is followed by bytes that were never
  written, and the token's string has no value.
\<close>

definition process_string :: "scanner \<Rightarrow> Token \<Rightarrow> (lex_error + Token \<times> scanner) option" where
  "process_string s token =
     (if usable s MAX_INIT_STR_LEN \<le> MAX_INIT_STR_LEN then None
      else
        (case process_string_loop s [] MAX_INIT_STR_LEN (usable s MAX_INIT_STR_LEN) of
           None \<Rightarrow> None
         | Some (Inl e) \<Rightarrow> Some (Inl e)
         | Some (Inr (s1, updated_string)) \<Rightarrow>
             if MAX_INIT_STR_LEN < length updated_string then None
             else Some (Inr (token\<lparr>tok_type := TOK_STR, tok_string := updated_string\<rparr>,
                             next_char s1))))"

text \<open>The \<open>do ... while\<close> loop of \<open>process_word\<close>; \<open>x\<close> is the length of \<open>lexeme\<close>.\<close>

function process_word_loop :: "scanner \<Rightarrow> string \<Rightarrow> scanner \<times> string" where
  "process_word_loop s lexeme =
     (if MAX_ID_LEN \<le> length lexeme
      then (s\<lparr>reported := reported s @ [''identifier too long'']\<rparr>, lexeme)
      else if (48 \<le> ch (next_char s) \<and> ch (next_char s) \<le> 57)
              \<or> isalpha (ch (next_char s)) \<or> ch (next_char s) = 95
      then process_word_loop (next_char s) (lexeme @ [char_of (ch s)])
      else (next_char s, lexeme @ [char_of (ch s)]))"
  by pat_completeness auto
termination
  by (relation "measure (\<lambda>(s, lexeme). MAX_ID_LEN - length lexeme)") auto

text \<open>The binary search of \<open>process_word\<close> through \<open>reserved\<close>.\<close>

function reserved_search :: "string \<Rightarrow> nat \<Rightarrow> nat \<Rightarrow> TokenType option" where
  "reserved_search lexeme lowest highest =
     (if lowest < highest then
        (if strcmp lexeme (fst (reserved ! (lowest + (highest - lowest) div 2))) = 0
         then Some (snd (reserved ! (lowest + (highest - lowest) div 2)))
         else if strcmp lexeme (fst (reserved ! (lowest + (highest - lowest) div 2))) < 0
         then reserved_search lexeme lowest (lowest + (highest - lowest) div 2)
         else reserved_search lexeme (lowest + (highest - lowest) div 2 + 1) highest)
      else None)"
  by pat_completeness auto
termination
  by (relation "measure (\<lambda>(lexeme, lowest, highest). highest - lowest)") auto

definition process_word :: "scanner \<Rightarrow> Token \<Rightarrow> Token \<times> scanner" where
  "process_word s token =
     (case process_word_loop (s\<lparr>position := (position s)\<lparr>col := cn s\<rparr>\<rparr>) [] of
        (s1, lexeme) \<Rightarrow>
          (case reserved_search lexeme 0 NUM_RESERVED_WORDS of
             Some t \<Rightarrow> (token\<lparr>tok_type := t, tok_lexeme := lexeme\<rparr>, s1)
           | None \<Rightarrow> (token\<lparr>tok_type := TOK_ID, tok_lexeme := lexeme\<rparr>, s1)))"

text \<open>
  The \<open>while (true)\<close> loop of \<open>skip_comment\<close>. The recursive call \<open>skip_comment()\<close>
  reads a character and enters the loop again, so it is the loop on \<open>next_char s\<close>.
  \<open>None\<close> is a loop that does not return.
\<close>

partial_function (option) skip_comment_loop :: "scanner \<Rightarrow> (lex_error + scanner) option" where
  "skip_comment_loop s =
     (if ch s = EOF then Some (Inl UnterminatedComment)
      else if ch s = 123 then
        Option.bind (skip_comment_loop (next_char s))
          (\<lambda>r. case r of
                  Inl e \<Rightarrow> Some (Inl e)
                | Inr s1 \<Rightarrow> skip_comment_loop (next_char s1))
      else if ch s = 125 then Some (Inr s)
      else skip_comment_loop (next_char s))"

declare skip_comment_loop.simps [code]

definition skip_comment :: "scanner \<Rightarrow> (lex_error + scanner) option" where
  "skip_comment s = skip_comment_loop (next_char s)"

text \<open>The \<open>switch\<close> of \<open>get_token\<close> on a character that opens no word, number, string or comment.\<close>

definition get_token_punct :: "scanner \<Rightarrow> Token \<Rightarrow> lex_error + Token \<times> scanner" where
  "get_token_punct s token =
     (if ch s = 61 then Inr (token\<lparr>tok_type := TOK_EQ, tok_string := ''=''\<rparr>, next_char s)
      else if ch s = 43 then Inr (token\<lparr>tok_type := TOK_PLUS, tok_string := ''+''\<rparr>, next_char s)
      else if ch s = 42 then Inr (token\<lparr>tok_type := TOK_MUL, tok_string := ''+''\<rparr>, next_char s)
      else if ch s = 58 then Inr (token\<lparr>tok_type := TOK_COLON, tok_string := '':''\<rparr>, next_char s)
      else if ch s = 44 then Inr (token\<lparr>tok_type := TOK_COMMA, tok_string := '',''\<rparr>, next_char s)
      else if ch s = 46 then
        (if ch (next_char s) = 46
         then Inr (token\<lparr>tok_type := TOK_DOTDOT, tok_string := ''..''\<rparr>, next_char (next_char s))
         else Inl (IllegalCharacter 46))
      else if ch s = 91 then Inr (token\<lparr>tok_type := TOK_LBRACK, tok_string := ''[''\<rparr>, next_char s)
      else if ch s = 93 then Inr (token\<lparr>tok_type := TOK_RBRACK, tok_string := '']''\<rparr>, next_char s)
      else if ch s = 40 then Inr (token\<lparr>tok_type := TOK_LPAREN, tok_string := ''(''\<rparr>, next_char s)
      else if ch s = 41 then Inr (token\<lparr>tok_type := TOK_RPAREN, tok_string := '')''\<rparr>, next_char s)
      else if ch s = 59 then Inr (token\<lparr>tok_type := TOK_SEMICOLON, tok_string := '';''\<rparr>, next_char s)
      else if ch s = 62 then
        (if ch (next_char s) = 61
         then Inr (token\<lparr>tok_type := TOK_GE, tok_string := ''>=''\<rparr>, next_char (next_char s))
         else Inr (token\<lparr>tok_type := TOK_GT, tok_string := ''>''\<rparr>, next_char s))
      else if ch s = 60 then
        (if ch (next_char s) = 61
         then Inr (token\<lparr>tok_type := TOK_LE, tok_string := ''<=''\<rparr>, next_char (next_char s))
         else Inr (token\<lparr>tok_type := TOK_LT, tok_string := ''<''\<rparr>, next_char s))
      else if ch s = 47 then
        (if ch (next_char s) = 61
         then Inr (token\<lparr>tok_type := TOK_NE, tok_string := ''/=''\<rparr>, next_char (next_char s))
         else Inr (token\<lparr>tok_type := TOK_DIV, tok_string := ''/''\<rparr>, next_char s))
      else if ch s = 45 then
        (if ch (next_char s) = 62
         then Inr (token\<lparr>tok_type := TOK_ARROW, tok_string := ''->''\<rparr>, next_char (next_char s))
         else Inr (token\<lparr>tok_type := TOK_MINUS, tok_string := ''-''\<rparr>, next_char s))
      else Inl (IllegalCharacter (ch s)))"

text \<open>
  \<open>get_token\<close>. After a comment it calls itself for the next token; \<open>None\<close> is a
  call that does not return, or one whose behaviour is undefined.
\<close>

partial_function (option) get_token :: "scanner \<Rightarrow> Token \<Rightarrow> (lex_error + Token \<times> scanner) option" where
  "get_token s0 token =
     (let s = (if snd (get_token_whitespace s0 0) = 0
               then (fst (get_token_whitespace s0 0))
                      \<lparr>position := \<lparr>line = ln (fst (get_token_whitespace s0 0)),
                                    col = cn (fst (get_token_whitespace s0 0))\<rparr>\<rparr>
               else fst (get_token_whitespace s0 0))
      in
      if ch s \<noteq> EOF then
        (if isalpha (ch s) \<or> ch s = 95 then Some (Inr (process_word s token))
         else if isdigit (ch s) then Some (Inr (process_number s token))
         else if ch s = 34 then
           (case process_string (next_char (s\<lparr>position := (position s)\<lparr>col := cn s\<rparr>\<rparr>)) token of
              None \<Rightarrow> None
            | Some (Inl e) \<Rightarrow> Some (Inl e)
            | Some (Inr (token', s1)) \<Rightarrow>
                Some (Inr (token', s1\<lparr>position := (position s)\<lparr>col := cn s\<rparr>\<rparr>)))
         else if ch s = 123 then
           Option.bind (skip_comment s)
             (\<lambda>r. case r of
                     Inl e \<Rightarrow> Some (Inl e)
                   | Inr s1 \<Rightarrow> get_token (next_char s1) token)
         else Some (get_token_punct s token))
      else Some (Inr (token\<lparr>tok_type := TOK_EOF\<rparr>, s)))"

declare get_token.simps [code]

text \<open>
  The client of the scanner (the parser) calls \<open>get_token\<close> again and again on one
  token structure. \<open>get_tokens n\<close> makes \<open>n\<close> calls and collects the tokens; it stops
  at the first error.
\<close>

fun get_tokens :: "nat \<Rightarrow> scanner \<Rightarrow> Token \<Rightarrow> (lex_error + Token list \<times> scanner) option" where
  "get_tokens 0 s token = Some (Inr ([], s))"
| "get_tokens (Suc n) s token =
     (case get_token s token of
        None \<Rightarrow> None
      | Some (Inl e) \<Rightarrow> Some (Inl e)
      | Some (Inr (t, s1)) \<Rightarrow>
          (case get_tokens n s1 t of
             None \<Rightarrow> None
           | Some (Inl e) \<Rightarrow> Some (Inl e)
           | Some (Inr (ts, s2)) \<Rightarrow> Some (Inr (t # ts, s2))))"

declare get_token_whitespace.simps [simp del]
declare process_number_loop.simps [simp del]
declare process_string_loop.simps [simp del]
declare process_word_loop.simps [simp del]
declare reserved_search.simps [simp del]

section \<open>Notions the properties are stated with\<close>

subsection \<open>Capacities\<close>

text \<open>
  \<open>capacity k\<close> is the power of two \<open>2 ^ k\<close> less the \<open>k\<close>-th difference of the
  table \<open>delta\<close>, as \<open>getsize\<close> computes it. \<open>claimed_capacity k\<close> is the form the
  specification gives, \<open>2 ^ (k + 1) - delta[k]\<close>. \<open>least_above form cur new\<close> says that
  \<open>new\<close> is the least value of the given form, over the indices of \<open>delta\<close>, that
  exceeds \<open>cur\<close>.
\<close>

definition capacity :: "nat \<Rightarrow> nat" where
  "capacity k = 2 ^ k - delta ! k"

definition claimed_capacity :: "nat \<Rightarrow> nat" where
  "claimed_capacity k = 2 ^ (k + 1) - delta ! k"

definition least_above :: "(nat \<Rightarrow> nat) \<Rightarrow> nat \<Rightarrow> nat \<Rightarrow> bool" where
  "least_above form cur new \<longleftrightarrow>
     cur < new \<and> list_ex (\<lambda>k. new = form k) [0..<MAX_IDX] \<and>
     list_all (\<lambda>k. cur < form k \<longrightarrow> new \<le> form k) [0..<MAX_IDX]"

subsection \<open>The contents of a table\<close>

text \<open>
  Only the first \<open>size\<close> buckets of the bucket array are in use (\<open>ht_init\<close> allocates
  16 for a size of 13). \<open>live\<close> is this part of the array and \<open>entries\<close> the list of
  all (key, value) pairs stored in it.
\<close>

definition live :: "('k, 'v) hashtab \<Rightarrow> ('k, 'v) HTentry list list" where
  "live ht = take (size_ht ht) (table ht)"

definition entries :: "('k, 'v) hashtab \<Rightarrow> ('k, 'v) HTentry list" where
  "entries ht = concat (live ht)"

text \<open>
  The contract of the two functions a table is created with: the compare function is an
  equivalence (as far as its result 0 is concerned), keys that compare equal hash alike
  for every capacity, and a hash value is an index below the capacity.
\<close>

definition consistent :: "('k \<Rightarrow> nat \<Rightarrow> nat) \<Rightarrow> ('k \<Rightarrow> 'k \<Rightarrow> int) \<Rightarrow> bool" where
  "consistent h c \<longleftrightarrow>
     (\<forall>a. c a a = 0) \<and>
     (\<forall>a b. c a b = 0 \<longrightarrow> c b a = 0) \<and>
     (\<forall>a b d. c a b = 0 \<longrightarrow> c b d = 0 \<longrightarrow> c a d = 0) \<and>
     (\<forall>a b n. c a b = 0 \<longrightarrow> h a n = h b n) \<and>
     (\<forall>a n. 0 < n \<longrightarrow> h a n < n)"

text \<open>
  The invariants of a table: no two entries are the same or have keys that compare equal
  (\<open>keys_distinct\<close>); every entry sits in the bucket its key hashes to
  (\<open>buckets_ok\<close>); the size is a capacity and the bucket array is long enough
  (\<open>ht_shape\<close>). \<open>grows\<close> is the test \<open>ht_insert\<close> makes before it calls
  \<open>rehash\<close>.
\<close>

definition keys_distinct :: "('k \<Rightarrow> 'k \<Rightarrow> int) \<Rightarrow> ('k, 'v) HTentry list \<Rightarrow> bool" where
  "keys_distinct c es \<longleftrightarrow>
     distinct es \<and> (\<forall>e\<in>set es. \<forall>e'\<in>set es. e \<noteq> e' \<longrightarrow> c (fst e) (fst e') \<noteq> 0)"

definition buckets_ok :: "('k \<Rightarrow> nat \<Rightarrow> nat) \<Rightarrow> nat \<Rightarrow> ('k, 'v) HTentry list list \<Rightarrow> bool" where
  "buckets_ok h n t \<longleftrightarrow> (\<forall>i\<in>{..<length t}. \<forall>e\<in>set (t ! i). h (fst e) n = i)"

definition ht_shape :: "('k, 'v) hashtab \<Rightarrow> bool" where
  "ht_shape ht \<longleftrightarrow>
     (\<exists>k\<in>{4..30}. size_ht ht = capacity k) \<and> size_ht ht \<le> length (table ht) \<and>
     buckets_ok (hash ht) (size_ht ht) (live ht)"

definition ht_inv :: "('k, 'v) hashtab \<Rightarrow> bool" where
  "ht_inv ht \<longleftrightarrow>
     ht_shape ht \<and> consistent (hash ht) (cmp ht) \<and> keys_distinct (cmp ht) (entries ht)"

definition grows :: "('k, 'v) hashtab \<Rightarrow> bool" where
  "grows ht \<longleftrightarrow>
     f32_quotient_gt (f32_of_nat ((num_entries ht + 1) mod 2 ^ 32)) (f32_of_nat (size_ht ht))
       (max_loadfactor ht)"

text \<open>
  The load factor of a table as \<open>ht_insert\<close> would compute it: the quotient of
  \<open>(float) num_entries\<close> and \<open>(float) size\<close> in single precision.
\<close>

definition load_factor :: "('k, 'v) hashtab \<Rightarrow> rat" where
  "load_factor ht = f32_div (f32_of_nat (num_entries ht)) (f32_of_nat (size_ht ht))"

subsection \<open>Runs of the symbol table\<close>

text \<open>
  A run of \<open>insert_name\<close> calls, one for each (name, address of the property) pair of a
  list, and the pairs of the list whose property is a variable in a given state.
\<close>

definition insert_names :: "(string \<times> nat) list \<Rightarrow> symtab_call list" where
  "insert_names items = map (\<lambda>kp. Insert_name (fst kp) (snd kp)) items"

definition variables :: "symtab \<Rightarrow> (string \<times> nat) list \<Rightarrow> (string \<times> nat) list" where
  "variables st items = filter (\<lambda>kp. IS_VARIABLE (valtype (props st (snd kp)))) items"

subsection \<open>Inputs of the scanner\<close>

text \<open>
  The value of a decimal literal, digit by digit from the left. \<open>looking_at s cs\<close> says
  that the text the scanner \<open>s\<close> has yet to scan is \<open>cs\<close>: its first character is in
  \<open>ch\<close> and the others are still in the file; at the end of the text \<open>ch\<close> is
  \<open>EOF\<close>.
\<close>

definition decimal :: "string \<Rightarrow> int" where
  "decimal ds = foldl (\<lambda>v c. 10 * v + (int (of_char c) - 48)) 0 ds"

definition looking_at :: "scanner \<Rightarrow> string \<Rightarrow> bool" where
  "looking_at s cs =
     (case cs of
        [] \<Rightarrow> ch s = EOF \<and> src_file s = []
      | c # cs' \<Rightarrow> ch s = int (of_char c) \<and> src_file s = cs')"

text \<open>
  The body of a string literal: printable characters other than the quote and the
  backslash, and the four escapes the scanner recognizes.
\<close>

definition plain_char :: "char \<Rightarrow> bool" where
  "plain_char c \<longleftrightarrow>
     32 \<le> (of_char c :: nat) \<and> (of_char c :: nat) \<le> 127 \<and> c \<noteq> CHR 0x22 \<and> c \<noteq> CHR 0x5C"

fun string_body :: "string \<Rightarrow> bool" where
  "string_body [] = True"
| "string_body [c] = plain_char c"
| "string_body (c # d # cs) =
     (if c = CHR 0x5C
      then (d = CHR ''n'' \<or> d = CHR ''t'' \<or> d = CHR 0x22 \<or> d = CHR 0x5C) \<and> string_body cs
      else plain_char c \<and> string_body (d # cs))"

subsection \<open>Evaluating single-precision quotients\<close>

text \<open>
  The rounded quotient of two natural numbers in integer arithmetic, for the evaluation of
  concrete runs: \<open>round_even_quot\<close> rounds a quotient of integers to the nearest integer,
  and \<open>f32_quot a b\<close> is \<open>a / b\<close> rounded to single precision (lemma
  \<open>f32_round_quot\<close>).
\<close>

definition round_even_quot :: "int \<Rightarrow> int \<Rightarrow> int" where
  "round_even_quot num den =
     (if 2 * (num mod den) < den then num div den
      else if den < 2 * (num mod den) then num div den + 1
      else if even (num div den) then num div den else num div den + 1)"

definition f32_quot :: "nat \<Rightarrow> nat \<Rightarrow> rat" where
  "f32_quot a b =
     (let e0 = bitlen (int a) - bitlen (int b);
          e = (if rat_of_nat a < 2 powi e0 * rat_of_nat b then e0 - 1 else e0)
      in rat_of_int
           (if e \<le> 23 then round_even_quot (int a * 2 ^ nat (23 - e)) (int b)
            else round_even_quot (int a) (int b * 2 ^ nat (e - 23)))
         * 2 powi (e - 23))"

subsection \<open>Sample data\<close>

text \<open>
  A table as the symbol table creates it (with \<open>shift_hash\<close> and \<open>key_strcmp\<close>) on a
  budget of 100 allocations, and twenty-four one-letter keys with their values.
\<close>

definition table0 :: "rat \<Rightarrow> (string, nat) hashtab" where
  "table0 L = the (fst (ht_init L shift_hash key_strcmp 100))"

definition letters :: "(string \<times> nat) list" where
  "letters =
     [(''a'', 1), (''b'', 2), (''c'', 3), (''d'', 4), (''e'', 5), (''f'', 6), (''g'', 7),
      (''h'', 8), (''i'', 9), (''j'', 10), (''k'', 11), (''l'', 12), (''m'', 13), (''n'', 14),
      (''o'', 15), (''p'', 16), (''q'', 17), (''r'', 18), (''s'', 19), (''t'', 20), (''u'', 21),
      (''v'', 22), (''w'', 23), (''x'', 24)]"

section \<open>Properties of the single-precision arithmetic\<close>

lemma round_even_bounds:
  "rat_of_int (round_even m) \<le> m + 1 / 2" "m - 1 / 2 \<le> rat_of_int (round_even m)"
proof -
  define f where "f = \<lfloor>m\<rfloor>"
  have f: "rat_of_int f \<le> m" "m < rat_of_int f + 1"
    unfolding f_def by linarith+
  have r: "round_even m =
      (if m - of_int f < 1 / 2 then f else if 1 / 2 < m - of_int f then f + 1
       else if even f then f else f + 1)"
    by (simp add: round_even_def f_def)
  from f show "rat_of_int (round_even m) \<le> m + 1 / 2"
    unfolding r by (simp split: if_splits)
  from f show "m - 1 / 2 \<le> rat_of_int (round_even m)"
    unfolding r by (simp split: if_splits)
qed

lemma round_even_of_int [simp]: "round_even (rat_of_int k) = k"
  by (simp add: round_even_def)

lemma round_even_floor: "\<lfloor>m\<rfloor> \<le> round_even m" "round_even m \<le> \<lfloor>m\<rfloor> + 1"
  by (auto simp: round_even_def)

lemma round_even_mono:
  assumes "m \<le> m'"
  shows "round_even m \<le> round_even m'"
proof (cases "\<lfloor>m\<rfloor> = \<lfloor>m'\<rfloor>")
  case True
  with assms show ?thesis
    by (auto simp: round_even_def)
next
  case False
  with assms have "\<lfloor>m\<rfloor> < \<lfloor>m'\<rfloor>"
    using floor_mono [of m m'] by simp
  with round_even_floor(2) [of m] round_even_floor(1) [of m'] show ?thesis
    by simp
qed

lemma f32_exponent_bounds:
  assumes "0 < x"
  shows "2 powi f32_exponent x \<le> x" "x < 2 powi (f32_exponent x + 1)"
proof -
  obtain p q where pq: "quotient_of x = (p, q)" by (cases "quotient_of x")
  then have q: "0 < q" and x: "x = rat_of_int p / rat_of_int q"
    using quotient_of_denom_pos [of x p q] quotient_of_div [of x p q] by simp_all
  with assms have p: "0 < p"
    by (simp add: zero_less_divide_iff)
  let ?bp = "bitlen p" and ?bq = "bitlen q"
  from bitlen_bounds [OF p] bitlen_bounds [OF q] have
    b: "2 ^ nat (?bp - 1) \<le> p" "p < 2 ^ nat ?bp" "2 ^ nat (?bq - 1) \<le> q" "q < 2 ^ nat ?bq"
    by simp_all
  have pos: "1 \<le> ?bp" "1 \<le> ?bq"
    using p q bitlen_eq_zero_iff [of p] bitlen_eq_zero_iff [of q] bitlen_nonneg [of p] bitlen_nonneg [of q]
    by linarith+
  have "rat_of_int (2 ^ nat (?bp - 1)) \<le> rat_of_int p" "rat_of_int p < rat_of_int (2 ^ nat ?bp)"
    "rat_of_int (2 ^ nat (?bq - 1)) \<le> rat_of_int q" "rat_of_int q < rat_of_int (2 ^ nat ?bq)"
    using b by (simp_all only: of_int_le_iff of_int_less_iff)
  then have rp: "(2::rat) powi (?bp - 1) \<le> rat_of_int p" "rat_of_int p < 2 powi ?bp"
    and rq: "(2::rat) powi (?bq - 1) \<le> rat_of_int q" "rat_of_int q < 2 powi ?bq"
    using pos by (simp_all add: power_int_nonneg_exp)
  have qpos: "0 < rat_of_int q" using q by simp
  have low: "(2::rat) powi (?bp - ?bq - 1) * rat_of_int q \<le> rat_of_int p"
  proof -
    have "(2::rat) powi (?bp - ?bq - 1) * rat_of_int q \<le> 2 powi (?bp - ?bq - 1) * 2 powi ?bq"
      using rq(2) by (intro mult_left_mono) simp_all
    also have "\<dots> = 2 powi (?bp - 1)"
      by (simp flip: power_int_add)
    finally show ?thesis using rp(1) by simp
  qed
  have high: "rat_of_int p < (2::rat) powi (?bp - ?bq + 1) * rat_of_int q"
  proof -
    have "(2::rat) powi ?bp = 2 powi (?bp - ?bq + 1) * 2 powi (?bq - 1)"
      by (simp flip: power_int_add)
    also have "\<dots> \<le> 2 powi (?bp - ?bq + 1) * rat_of_int q"
      using rq(1) by (intro mult_left_mono) simp_all
    finally show ?thesis using rp(2) by simp
  qed
  have e: "f32_exponent x =
      (if rat_of_int p < 2 powi (?bp - ?bq) * rat_of_int q then ?bp - ?bq - 1 else ?bp - ?bq)"
    by (simp add: f32_exponent_def pq)
  have le_iff: "(2 powi k \<le> x) = (2 powi k * rat_of_int q \<le> rat_of_int p)" for k
    using qpos by (simp add: x pos_le_divide_eq)
  have less_iff: "(x < 2 powi k) = (rat_of_int p < 2 powi k * rat_of_int q)" for k
    using qpos by (simp add: x pos_divide_less_eq)
  show "2 powi f32_exponent x \<le> x"
    unfolding le_iff e using low by (simp add: not_less)
  show "x < 2 powi (f32_exponent x + 1)"
    unfolding less_iff e using high by simp

qed

lemma f32_exponent_unique:
  assumes "0 < x" "2 powi e \<le> x" "x < 2 powi (e + 1)"
  shows "f32_exponent x = e"
proof (rule ccontr)
  assume ne: "f32_exponent x \<noteq> e"
  note b = f32_exponent_bounds [OF assms(1)]
  show False
  proof (cases "f32_exponent x < e")
    case True
    then have "(2::rat) powi (f32_exponent x + 1) \<le> 2 powi e"
      by (intro power_int_increasing) simp_all
    with b(2) assms(2) show False by simp
  next
    case False
    with ne have "(2::rat) powi (e + 1) \<le> 2 powi f32_exponent x"
      by (intro power_int_increasing) simp_all
    with b(1) assms(3) show False by simp
  qed
qed

lemma f32_exponent_mono:
  assumes "0 < x" "x \<le> y"
  shows "f32_exponent x \<le> f32_exponent y"
proof (rule ccontr)
  assume "\<not> f32_exponent x \<le> f32_exponent y"
  then have "(2::rat) powi (f32_exponent y + 1) \<le> 2 powi f32_exponent x"
    by (intro power_int_increasing) simp_all
  with f32_exponent_bounds(1) [OF assms(1)] f32_exponent_bounds(2) [of y] assms show False
    by simp
qed


lemma pow2_add: "(2::rat) powi a * 2 powi b = 2 powi (a + b)"
  by (simp add: power_int_add)

lemma pow2_shift: "(2::rat) ^ k * 2 powi (e - int k) = 2 powi e"
  using pow2_add [of "int k" "e - int k"] by simp

lemma f32_round_eval:
  assumes "0 < x" "2 powi e \<le> x" "x < 2 powi (e + 1)"
  shows "f32_round x = rat_of_int (round_even (x * 2 powi (23 - e))) * 2 powi (e - 23)"
  using assms f32_exponent_unique [OF assms] by (simp add: f32_round_def)

lemma f32_mantissa:
  fixes x :: rat
  assumes "0 < x" "2 powi e \<le> x" "x < 2 powi (e + 1)"
  shows "2 ^ 23 \<le> x * 2 powi (23 - e)" "x * 2 powi (23 - e) < 2 ^ 24"
proof -
  have pos: "(0::rat) < 2 powi (23 - e)" by simp
  have "(2::rat) powi e * 2 powi (23 - e) = 2 ^ 23" "(2::rat) powi (e + 1) * 2 powi (23 - e) = 2 ^ 24"
    by (simp_all add: pow2_add)
  with mult_right_mono [OF assms(2), of "2 powi (23 - e)"]
    mult_strict_right_mono [OF assms(3) pos]
  show "2 ^ 23 \<le> x * 2 powi (23 - e)" "x * 2 powi (23 - e) < 2 ^ 24"
    by simp_all
qed

lemma f32_round_binade:
  assumes "0 < x" "2 powi e \<le> x" "x < 2 powi (e + 1)"
  shows "2 powi e \<le> f32_round x" "f32_round x \<le> 2 powi (e + 1)"
proof -
  let ?m = "x * 2 powi (23 - e)"
  note m = f32_mantissa [OF assms]
  have "round_even (rat_of_int (2 ^ 23)) \<le> round_even ?m"
    "round_even ?m \<le> round_even (rat_of_int (2 ^ 24))"
    using m by (intro round_even_mono; simp)+
  then have "2 ^ 23 \<le> round_even ?m" "round_even ?m \<le> 2 ^ 24"
    by (simp_all only: round_even_of_int)
  then have "rat_of_int (2 ^ 23) \<le> rat_of_int (round_even ?m)"
    "rat_of_int (round_even ?m) \<le> rat_of_int (2 ^ 24)"
    by (simp_all only: of_int_le_iff)
  then have r: "2 ^ 23 \<le> rat_of_int (round_even ?m)" "rat_of_int (round_even ?m) \<le> 2 ^ 24"
    by simp_all
  have "(2::rat) powi e = 2 ^ 23 * 2 powi (e - 23)"
    using pow2_shift [of 23 e] by simp
  also have "\<dots> \<le> rat_of_int (round_even ?m) * 2 powi (e - 23)"
    using r(1) by (intro mult_right_mono) simp_all
  finally show "2 powi e \<le> f32_round x"
    by (simp add: f32_round_eval [OF assms])
  have "rat_of_int (round_even ?m) * 2 powi (e - 23) \<le> 2 ^ 24 * 2 powi (e - 23)"
    using r(2) by (intro mult_right_mono) simp_all
  also have "\<dots> = 2 powi (e + 1)"
    using pow2_shift [of 24 "e + 1"] by simp
  finally show "f32_round x \<le> 2 powi (e + 1)"
    by (simp add: f32_round_eval [OF assms])
qed

lemma f32_round_0 [simp]: "f32_round 0 = 0"
  by (simp add: f32_round_def)

lemma f32_round_pos:
  assumes "0 < x"
  shows "0 < f32_round x"
proof -
  have "(0::rat) < 2 powi f32_exponent x" by simp
  also have "\<dots> \<le> f32_round x"
    using f32_exponent_bounds [OF assms] by (intro f32_round_binade(1) [OF assms])
  finally show ?thesis .
qed

lemma f32_round_mono:
  assumes "0 \<le> x" "x \<le> y"
  shows "f32_round x \<le> f32_round y"
proof (cases "x = 0")
  case True
  show ?thesis
  proof (cases "y = 0")
    case True
    with \<open>x = 0\<close> show ?thesis by simp
  next
    case False
    with assms True have "0 < y" by simp
    from f32_round_pos [OF this] True show ?thesis by simp
  qed
next
  case False
  with assms have x: "0 < x" and y: "0 < y" by simp_all
  note bx = f32_exponent_bounds [OF x] and by' = f32_exponent_bounds [OF y]
  from f32_exponent_mono [OF x assms(2)] have "f32_exponent x \<le> f32_exponent y" .
  then consider "f32_exponent x = f32_exponent y" | "f32_exponent x + 1 \<le> f32_exponent y"
    by linarith
  then show ?thesis
  proof cases
    case 1
    let ?e = "f32_exponent y"
    have "x * 2 powi (23 - ?e) \<le> y * 2 powi (23 - ?e)"
      using assms(2) by (intro mult_right_mono) simp_all
    then have "round_even (x * 2 powi (23 - ?e)) \<le> round_even (y * 2 powi (23 - ?e))"
      by (rule round_even_mono)
    then have "rat_of_int (round_even (x * 2 powi (23 - ?e))) \<le>
               rat_of_int (round_even (y * 2 powi (23 - ?e)))"
      by (simp only: of_int_le_iff)
    then have "rat_of_int (round_even (x * 2 powi (23 - ?e))) * 2 powi (?e - 23) \<le>
               rat_of_int (round_even (y * 2 powi (23 - ?e))) * 2 powi (?e - 23)"
      by (intro mult_right_mono) simp_all
    then show ?thesis
      using f32_round_eval [OF x bx] f32_round_eval [OF y by'] 1 by simp
  next
    case 2
    have "f32_round x \<le> 2 powi (f32_exponent x + 1)"
      by (rule f32_round_binade(2) [OF x bx])
    also have "\<dots> \<le> 2 powi f32_exponent y"
      using 2 by (intro power_int_increasing) simp_all
    also have "\<dots> \<le> f32_round y"
      by (rule f32_round_binade(1) [OF y by'])
    finally show ?thesis .
  qed
qed

lemma f32_round_error:
  assumes "0 < x"
  shows "\<bar>f32_round x - x\<bar> \<le> x / 2 ^ 24"
proof -
  let ?e = "f32_exponent x"
  let ?m = "x * 2 powi (23 - ?e)"
  note b = f32_exponent_bounds [OF assms]
  note m = f32_mantissa [OF assms b]
  have x: "x = ?m * 2 powi (?e - 23)"
    by (simp add: mult.assoc pow2_add)
  have "\<bar>rat_of_int (round_even ?m) - ?m\<bar> \<le> 1 / 2"
    using round_even_bounds [of ?m] by linarith
  also have "\<dots> \<le> ?m / 2 ^ 24"
    using m(1) by simp
  finally have "\<bar>rat_of_int (round_even ?m) - ?m\<bar> * 2 powi (?e - 23) \<le> ?m / 2 ^ 24 * 2 powi (?e - 23)"
    by (intro mult_right_mono) simp_all
  moreover have "\<bar>rat_of_int (round_even ?m) - ?m\<bar> * 2 powi (?e - 23) =
      \<bar>rat_of_int (round_even ?m) * 2 powi (?e - 23) - ?m * 2 powi (?e - 23)\<bar>"
    by (simp add: abs_mult flip: left_diff_distrib)
  ultimately have "\<bar>f32_round x - ?m * 2 powi (?e - 23)\<bar> \<le> ?m * 2 powi (?e - 23) / 2 ^ 24"
    by (simp add: f32_round_eval [OF assms b])
  then show ?thesis
    using x by simp
qed

lemma f32_round_of_nat:
  assumes "n < 2 ^ 24"
  shows "f32_round (rat_of_nat n) = rat_of_nat n"
proof (cases "n = 0")
  case True
  then show ?thesis by simp
next
  case False
  then have x: "0 < rat_of_nat n" by simp
  let ?e = "f32_exponent (rat_of_nat n)"
  note b = f32_exponent_bounds [OF x]
  have "?e < 24"
  proof (rule ccontr)
    assume "\<not> ?e < 24"
    then have "(2::rat) powi 24 \<le> 2 powi ?e"
      by (intro power_int_increasing) simp_all
    with b(1) have "2 ^ 24 \<le> rat_of_nat n" by simp
    then have "rat_of_nat (2 ^ 24) \<le> rat_of_nat n" by simp
    then have "2 ^ 24 \<le> n" by (simp only: of_nat_le_iff)
    with assms show False by simp
  qed
  then have "0 \<le> 23 - ?e" by simp
  then have "rat_of_nat n * 2 powi (23 - ?e) = rat_of_int (int n * 2 ^ nat (23 - ?e))"
    by (simp add: power_int_nonneg_exp)
  then have "round_even (rat_of_nat n * 2 powi (23 - ?e)) = int n * 2 ^ nat (23 - ?e)"
    by (simp only: round_even_of_int)
  then have "f32_round (rat_of_nat n) = rat_of_int (int n * 2 ^ nat (23 - ?e)) * 2 powi (?e - 23)"
    by (simp add: f32_round_eval [OF x b])
  also have "\<dots> = rat_of_nat n * (2 powi (23 - ?e) * 2 powi (?e - 23))"
    using \<open>0 \<le> 23 - ?e\<close> by (simp add: power_int_nonneg_exp)
  also have "\<dots> = rat_of_nat n"
    by (simp add: pow2_add)
  finally show ?thesis .
qed

lemma round_even_quot:
  assumes "0 < den"
  shows "round_even (rat_of_int num / rat_of_int den) = round_even_quot num den"
proof -
  have f: "\<lfloor>rat_of_int num / rat_of_int den\<rfloor> = num div den"
    by (rule floor_divide_of_int_eq)
  have d: "0 < rat_of_int den" using assms by simp
  have "rat_of_int num = rat_of_int (num div den * den + num mod den)"
    by simp
  then have "rat_of_int num = rat_of_int (num div den) * rat_of_int den + rat_of_int (num mod den)"
    by (simp only: of_int_add of_int_mult)
  then have frac: "rat_of_int num / rat_of_int den - rat_of_int (num div den) =
      rat_of_int (num mod den) / rat_of_int den"
    using d by (simp add: field_simps)
  have lt: "(rat_of_int (num mod den) / rat_of_int den < 1 / 2) = (2 * (num mod den) < den)"
  proof -
    have "(rat_of_int (num mod den) / rat_of_int den < 1 / 2) =
          (rat_of_int (2 * (num mod den)) < rat_of_int den)"
      using d by (simp add: field_simps)
    then show ?thesis by (simp only: of_int_less_iff)
  qed
  have gt: "(1 / 2 < rat_of_int (num mod den) / rat_of_int den) = (den < 2 * (num mod den))"
  proof -
    have "(1 / 2 < rat_of_int (num mod den) / rat_of_int den) =
          (rat_of_int den < rat_of_int (2 * (num mod den)))"
      using d by (simp add: field_simps)
    then show ?thesis by (simp only: of_int_less_iff)
  qed
  show ?thesis
    unfolding round_even_def f frac lt gt round_even_quot_def ..
qed

lemma quot_exponent:
  fixes p q :: int
  assumes "0 < p" "0 < q"
  defines "e0 \<equiv> bitlen p - bitlen q"
  defines "e \<equiv> (if rat_of_int p < 2 powi e0 * rat_of_int q then e0 - 1 else e0)"
  shows "2 powi e \<le> rat_of_int p / rat_of_int q" "rat_of_int p / rat_of_int q < 2 powi (e + 1)"
proof -
  let ?bp = "bitlen p" and ?bq = "bitlen q"
  from bitlen_bounds [OF assms(1)] bitlen_bounds [OF assms(2)] have
    b: "2 ^ nat (?bp - 1) \<le> p" "p < 2 ^ nat ?bp" "2 ^ nat (?bq - 1) \<le> q" "q < 2 ^ nat ?bq"
    by simp_all
  have pos: "1 \<le> ?bp" "1 \<le> ?bq"
    using assms(1,2) bitlen_eq_zero_iff [of p] bitlen_eq_zero_iff [of q]
      bitlen_nonneg [of p] bitlen_nonneg [of q]
    by linarith+
  have "rat_of_int (2 ^ nat (?bp - 1)) \<le> rat_of_int p" "rat_of_int p < rat_of_int (2 ^ nat ?bp)"
    "rat_of_int (2 ^ nat (?bq - 1)) \<le> rat_of_int q" "rat_of_int q < rat_of_int (2 ^ nat ?bq)"
    using b by (simp_all only: of_int_le_iff of_int_less_iff)
  then have rp: "(2::rat) powi (?bp - 1) \<le> rat_of_int p" "rat_of_int p < 2 powi ?bp"
    and rq: "(2::rat) powi (?bq - 1) \<le> rat_of_int q" "rat_of_int q < 2 powi ?bq"
    using pos by (simp_all add: power_int_nonneg_exp)
  have qpos: "0 < rat_of_int q" using assms(2) by simp
  have low: "(2::rat) powi (e0 - 1) * rat_of_int q \<le> rat_of_int p"
  proof -
    have "(2::rat) powi (e0 - 1) * rat_of_int q \<le> 2 powi (e0 - 1) * 2 powi ?bq"
      using rq(2) by (intro mult_left_mono) simp_all
    also have "\<dots> = 2 powi (?bp - 1)"
      by (simp add: pow2_add e0_def)
    finally show ?thesis using rp(1) by simp
  qed
  have high: "rat_of_int p < (2::rat) powi (e0 + 1) * rat_of_int q"
  proof -
    have "(2::rat) powi ?bp = 2 powi (e0 + 1) * 2 powi (?bq - 1)"
      by (simp add: pow2_add e0_def)
    also have "\<dots> \<le> 2 powi (e0 + 1) * rat_of_int q"
      using rq(1) by (intro mult_left_mono) simp_all
    finally show ?thesis using rp(2) by simp
  qed
  have le_iff: "(2 powi k \<le> rat_of_int p / rat_of_int q) = (2 powi k * rat_of_int q \<le> rat_of_int p)" for k
    using qpos by (simp add: pos_le_divide_eq)
  have less_iff: "(rat_of_int p / rat_of_int q < 2 powi k) = (rat_of_int p < 2 powi k * rat_of_int q)" for k
    using qpos by (simp add: pos_divide_less_eq)
  show "2 powi e \<le> rat_of_int p / rat_of_int q"
    unfolding le_iff e_def using low by (simp add: not_less)
  show "rat_of_int p / rat_of_int q < 2 powi (e + 1)"
    unfolding less_iff e_def using high by simp
qed

lemma f32_round_quot:
  assumes "0 < a" "0 < b"
  shows "f32_round (rat_of_nat a / rat_of_nat b) = f32_quot a b"
proof -
  have "0 < rat_of_nat a / rat_of_nat b"
    using assms by simp
  define e0 where "e0 = bitlen (int a) - bitlen (int b)"
  define e where "e = (if rat_of_nat a < 2 powi e0 * rat_of_nat b then e0 - 1 else e0)"
  have pa: "0 < int a" "0 < int b" using assms by simp_all
  have b: "2 powi e \<le> rat_of_nat a / rat_of_nat b" "rat_of_nat a / rat_of_nat b < 2 powi (e + 1)"
    unfolding e_def e0_def
    using quot_exponent [OF pa, unfolded of_int_of_nat_eq] by blast+
  have m: "round_even (rat_of_nat a / rat_of_nat b * 2 powi (23 - e)) =
      (if e \<le> 23 then round_even_quot (int a * 2 ^ nat (23 - e)) (int b)
       else round_even_quot (int a) (int b * 2 ^ nat (e - 23)))"
  proof (cases "e \<le> 23")
    case True
    then have p: "(2::rat) powi (23 - e) = 2 ^ nat (23 - e)"
      by (simp add: power_int_nonneg_exp)
    have "rat_of_nat a / rat_of_nat b * 2 powi (23 - e) =
        rat_of_int (int a * 2 ^ nat (23 - e)) / rat_of_int (int b)"
      unfolding p by simp
    then have "round_even (rat_of_nat a / rat_of_nat b * 2 powi (23 - e)) =
        round_even_quot (int a * 2 ^ nat (23 - e)) (int b)"
      using round_even_quot [of "int b" "int a * 2 ^ nat (23 - e)"] assms(2) by (simp only:)
    with True show ?thesis
      by (simp only: if_True)
  next
    case False
    then have "(2::rat) powi (23 - e) = 1 / 2 ^ nat (e - 23)"
      using power_int_minus_divide [of "2::rat" "e - 23"] by (simp add: power_int_nonneg_exp)
    then have "rat_of_nat a / rat_of_nat b * 2 powi (23 - e) =
        rat_of_int (int a) / rat_of_int (int b * 2 ^ nat (e - 23))"
      by simp
    moreover have "0 < int b * 2 ^ nat (e - 23)"
      using assms(2) by simp
    ultimately have "round_even (rat_of_nat a / rat_of_nat b * 2 powi (23 - e)) =
        round_even_quot (int a) (int b * 2 ^ nat (e - 23))"
      using round_even_quot [of "int b * 2 ^ nat (e - 23)" "int a"] by (simp only:)
    with False show ?thesis
      by (simp only: if_False)
  qed
  from f32_round_eval [OF \<open>0 < rat_of_nat a / rat_of_nat b\<close> b] show ?thesis
    unfolding m by (simp add: f32_quot_def Let_def e_def e0_def)
qed

lemma f32_of_nat_small: "n < 2 ^ 24 \<Longrightarrow> f32_of_nat n = rat_of_nat n"
  by (simp add: f32_of_nat_def f32_round_of_nat)

lemma f32_div_small:
  assumes "0 < a" "0 < b" "a < 2 ^ 24" "b < 2 ^ 24"
  shows "f32_div (f32_of_nat a) (f32_of_nat b) = f32_quot a b"
  using assms by (simp add: f32_div_def f32_of_nat_small f32_round_quot)

lemma f32_of_nat_pos: "0 < n \<Longrightarrow> 0 < f32_of_nat n"
  by (simp add: f32_of_nat_def f32_round_pos)

lemma f32_quotient_gt_small:
  assumes "0 < a" "0 < b" "a < 2 ^ 24" "b < 2 ^ 24"
  shows "f32_quotient_gt (f32_of_nat a) (f32_of_nat b) L = (L < f32_quot a b)"
  using assms f32_of_nat_pos [of b]
  by (simp add: f32_quotient_gt_def f32_div_small)

text \<open>What a concrete run unfolds to evaluate the load test.\<close>

lemmas f32_eval = f32_quotient_gt_small f32_div_small f32_quot_def round_even_quot_def
  compute_bitlen

section \<open>Properties of the symbol table\<close>

text \<open>The definitions a concrete run of the symbol table unfolds.\<close>

lemmas symtab_eval =
  symtab_start_def init_symbol_table_def open_subroutine_def close_subroutine_def
  release_symbol_table_def insert_name_def find_name_def get_variables_width_def
  ht_init_def ht_insert_def ht_search_def ht_free_def malloc_def talloc_def
  INITIAL_DELTA_INDEX_def Let_def shift_hash_def char_to_uint_def key_strcmp_def
  EXIT_SUCCESS_def EXIT_FAILURE_def HASH_TABLE_KEY_VALUE_PAIR_EXISTS_def
  IS_VARIABLE_def IS_CALLABLE_TYPE_def TYPE_CALLABLE_def INT_MAX_def f32_eval

text \<open>
  C9. A call of \<open>insert_name\<close> that fails, because no table is active or because
  \<open>ht_insert\<close> did not return \<open>EXIT_SUCCESS\<close>, leaves the offset counter and the
  stored properties as they were. A call that succeeds has seen \<open>ht_insert\<close> succeed; it
  assigns the offset and increments the counter for a variable, and does neither for a
  callable.
\<close>

theorem insert_name_failure_keeps_offset:
  "(sym_table st = None \<longrightarrow> insert_name st id' prop = Some (False, st)) \<and>
   (insert_name st id' prop = Some (False, st') \<longrightarrow>
      curr_offset st' = curr_offset st \<and> props st' = props st) \<and>
   (insert_name st id' prop = Some (True, st') \<longrightarrow>
      (\<exists>p t' a'. prop = Some p \<and>
         ht_insert (sym_table st) id' prop (avail st) = Some (EXIT_SUCCESS, t', a') \<and>
         (if IS_VARIABLE (valtype (props st p))
          then curr_offset st' = (curr_offset st + 1) mod 2 ^ 32 \<and>
               props st' = (props st)(p := (props st p)\<lparr>offset := curr_offset st\<rparr>)
          else curr_offset st' = curr_offset st \<and> props st' = props st)))"
proof (intro conjI impI)
  assume "sym_table st = None"
  then show "insert_name st id' prop = Some (False, st)"
    by (simp add: insert_name_def)
next
  assume "insert_name st id' prop = Some (False, st')"
  then show "curr_offset st' = curr_offset st" and "props st' = props st"
    by (auto simp: insert_name_def Let_def split: if_splits option.splits prod.splits)
next
  assume ok: "insert_name st id' prop = Some (True, st')"
  then obtain t' a' where ins: "ht_insert (sym_table st) id' prop (avail st) = Some (EXIT_SUCCESS, t', a')"
    by (auto simp: insert_name_def Let_def split: if_splits option.splits prod.splits)
  then obtain p where p: "prop = Some p"
    by (cases "prop")
       (auto simp: ht_insert_def EXIT_SUCCESS_def EXIT_FAILURE_def split: option.splits)
  from ok ins p
  have "if IS_VARIABLE (valtype (props st p))
        then curr_offset st' = (curr_offset st + 1) mod 2 ^ 32 \<and>
             props st' = (props st)(p := (props st p)\<lparr>offset := curr_offset st\<rparr>)
        else curr_offset st' = curr_offset st \<and> props st' = props st"
    by (auto simp: insert_name_def Let_def split: if_splits)
  with ins p
  show "\<exists>p t' a'. prop = Some p \<and>
         ht_insert (sym_table st) id' prop (avail st) = Some (EXIT_SUCCESS, t', a') \<and>
         (if IS_VARIABLE (valtype (props st p))
          then curr_offset st' = (curr_offset st + 1) mod 2 ^ 32 \<and>
               props st' = (props st)(p := (props st p)\<lparr>offset := curr_offset st\<rparr>)
          else curr_offset st' = curr_offset st \<and> props st' = props st)"
    by blast
qed

theorem insert_name_failure_keeps_offset_witness:
  "map_option fst
     (insert_name
        (snd (the (insert_name (the (init_symbol_table (symtab_start (\<lambda>a. \<lparr>valtype = 4, offset = 0\<rparr>) 100)))
                     (Some ''x'') (Some 2))))
        (Some ''x'') (Some 3)) = Some False \<and>
   map_option (\<lambda>r. curr_offset (snd r))
     (insert_name
        (snd (the (insert_name (the (init_symbol_table (symtab_start (\<lambda>a. \<lparr>valtype = 4, offset = 0\<rparr>) 100)))
                     (Some ''x'') (Some 2))))
        (Some ''x'') (Some 3)) = Some 2 \<and>
   curr_offset
     (snd (the (insert_name (the (init_symbol_table (symtab_start (\<lambda>a. \<lparr>valtype = 4, offset = 0\<rparr>) 100)))
                  (Some ''x'') (Some 2)))) = 2"
proof -
  define s1 where
    "s1 = snd (the (insert_name (the (init_symbol_table (symtab_start (\<lambda>a. \<lparr>valtype = 4, offset = 0\<rparr>) 100)))
                     (Some ''x'') (Some 2)))"
  have c1: "curr_offset s1 = 2"
    by (simp add: s1_def symtab_eval)
  obtain s2 where e: "insert_name s1 (Some ''x'') (Some 3) = Some (False, s2)"
    by (simp add: s1_def symtab_eval)
  from insert_name_failure_keeps_offset [of s1 "Some ''x''" "Some 3" s2] e
  have "curr_offset s2 = curr_offset s1"
    by blast
  with c1 e show ?thesis
    unfolding s1_def [symmetric] by simp
qed

text \<open>
  C1. While a subroutine scope is active (an active table and a saved table), a name that
  is absent from the active table and present in the saved one is found exactly when its
  property is callable; a variable of the saved table is reported absent. A name that is
  present only in the active table is found, and is no longer found after
  \<open>close_subroutine\<close>.
\<close>

theorem find_name_scope_isolation:
  assumes "sym_table st = Some t" and "saved_table st = Some g"
  shows
    "(ht_search (Some t) (Some n) = Some None \<and> ht_search (Some g) (Some n) = Some (Some p) \<longrightarrow>
        find_name st (Some n) =
          Some (if IS_CALLABLE_TYPE (valtype (props st p)) then (True, Some p) else (False, None))) \<and>
     (ht_search (Some t) (Some n) = Some (Some p) \<and> ht_search (Some g) (Some n) = Some None \<longrightarrow>
        find_name st (Some n) = Some (True, Some p) \<and>
        find_name (close_subroutine st) (Some n) = Some (False, None))"
  using assms
  by (simp add: find_name_def close_subroutine_def release_symbol_table_def Let_def)

theorem find_name_scope_isolation_witness:
  "find_name
     (snd (the (symtab_calls
        (the (init_symbol_table (symtab_start (\<lambda>a. \<lparr>valtype = (if a = 1 \<or> a = 5 then 8 else 4), offset = 0\<rparr>) 100)))
        [Insert_name ''f'' 1, Insert_name ''g'' 2, Open_subroutine ''p'' 5, Insert_name ''x'' 3])))
     (Some ''f'') = Some (True, Some 1) \<and>
   find_name
     (snd (the (symtab_calls
        (the (init_symbol_table (symtab_start (\<lambda>a. \<lparr>valtype = (if a = 1 \<or> a = 5 then 8 else 4), offset = 0\<rparr>) 100)))
        [Insert_name ''f'' 1, Insert_name ''g'' 2, Open_subroutine ''p'' 5, Insert_name ''x'' 3])))
     (Some ''g'') = Some (False, None) \<and>
   find_name
     (snd (the (symtab_calls
        (the (init_symbol_table (symtab_start (\<lambda>a. \<lparr>valtype = (if a = 1 \<or> a = 5 then 8 else 4), offset = 0\<rparr>) 100)))
        [Insert_name ''f'' 1, Insert_name ''g'' 2, Open_subroutine ''p'' 5, Insert_name ''x'' 3])))
     (Some ''x'') = Some (True, Some 3) \<and>
   find_name
     (close_subroutine (snd (the (symtab_calls
        (the (init_symbol_table (symtab_start (\<lambda>a. \<lparr>valtype = (if a = 1 \<or> a = 5 then 8 else 4), offset = 0\<rparr>) 100)))
        [Insert_name ''f'' 1, Insert_name ''g'' 2, Open_subroutine ''p'' 5, Insert_name ''x'' 3]))))
     (Some ''x'') = Some (False, None)"
proof -
  define s where
    "s = snd (the (symtab_calls
        (the (init_symbol_table (symtab_start (\<lambda>a. \<lparr>valtype = (if a = 1 \<or> a = 5 then 8 else 4), offset = 0\<rparr>) 100)))
        [Insert_name ''f'' 1, Insert_name ''g'' 2, Open_subroutine ''p'' 5, Insert_name ''x'' 3]))"
  obtain t g where tg: "sym_table s = Some t" "saved_table s = Some g"
    by (simp add: s_def symtab_eval)
  have types: "IS_CALLABLE_TYPE (valtype (props s 1))" "\<not> IS_CALLABLE_TYPE (valtype (props s 2))"
    by (simp_all add: s_def symtab_eval)
  have "ht_search (sym_table s) (Some ''f'') = Some None"
    and "ht_search (saved_table s) (Some ''f'') = Some (Some 1)"
    and "ht_search (sym_table s) (Some ''g'') = Some None"
    and "ht_search (saved_table s) (Some ''g'') = Some (Some 2)"
    and "ht_search (sym_table s) (Some ''x'') = Some (Some 3)"
    and "ht_search (saved_table s) (Some ''x'') = Some None"
    by (simp_all add: s_def symtab_eval)
  then have "find_name s (Some ''f'') = Some (True, Some 1)"
    and "find_name s (Some ''g'') = Some (False, None)"
    and "find_name s (Some ''x'') = Some (True, Some 3)"
    and "find_name (close_subroutine s) (Some ''x'') = Some (False, None)"
    using find_name_scope_isolation [OF tg, of "''f''" 1]
      find_name_scope_isolation [OF tg, of "''g''" 2]
      find_name_scope_isolation [OF tg, of "''x''" 3] types
    by (simp_all add: tg)
  then show ?thesis
    unfolding s_def by simp
qed

section \<open>Properties of the scanner\<close>

text \<open>The definitions a concrete run of the scanner unfolds.\<close>

lemmas scanner_eval =
  scanner_start_def token_start_def init_scanner_def next_char_def getc_def
  get_token.simps get_token_whitespace.simps get_token_punct_def
  process_number_def process_number_loop.simps wrap_int_def
  process_string_def process_string_loop.simps process_string_escape_def MAX_INIT_STR_LEN_def
  process_word_def process_word_loop.simps reserved_search.simps
  isspace_def isdigit_def isalpha_def isascii_def EOF_def INT_MAX_def Let_def
  char_of_def

section \<open>Properties of the hash table\<close>

subsection \<open>The capacities\<close>

lemma delta_facts:
  "2 \<le> k \<Longrightarrow> k < 32 \<Longrightarrow> delta ! k < 2 ^ (k - 1) \<and> odd (delta ! k)"
proof -
  have "list_all (\<lambda>k. delta ! k < 2 ^ (k - 1) \<and> odd (delta ! k)) [2..<32]"
    by (simp add: delta_def)
  then have all: "\<forall>k\<in>set [2..<32]. delta ! k < 2 ^ (k - 1) \<and> odd (delta ! k)"
    by (simp only: Ball_set)
  assume "2 \<le> k" "k < 32"
  then have "k \<in> set [2..<32]"
    by (simp only: set_upt atLeastLessThan_iff)
  with all show "delta ! k < 2 ^ (k - 1) \<and> odd (delta ! k)"
    by (rule bspec)
qed

lemma getsize_loop_run:
  "p \<le> k \<Longrightarrow> k \<le> 30 \<Longrightarrow> s \<le> 2 ^ k \<Longrightarrow> (p < k \<longrightarrow> 2 ^ (k - 1) < s) \<Longrightarrow>
     getsize_loop s (2 ^ p) (int p) = Some (2 ^ k, int k)"
proof (induction "k - p" arbitrary: p)
  case 0
  then have "p = k" by simp
  with 0 show ?case
    by (subst getsize_loop.simps) simp
next
  case (Suc d)
  then have pk: "p < k" by simp
  then have "(2::int) ^ p \<le> 2 ^ (k - 1)"
    by (intro power_increasing) auto
  moreover have "(2::int) ^ (k - 1) < s"
    using Suc.prems(4) pk by simp
  ultimately have lt: "(2::int) ^ p < s"
    by (rule order_le_less_trans)
  have "(2::int) ^ Suc p \<le> 2 ^ 30"
    using pk Suc.prems(2) by (intro power_increasing) auto
  then have no_ov: "\<not> INT_MAX < (2::int) ^ p * 2"
    by (simp add: INT_MAX_def)
  have "getsize_loop s (2 ^ Suc p) (int (Suc p)) = Some (2 ^ k, int k)"
    using Suc.hyps(2) Suc.prems pk by (intro Suc.hyps(1)) auto
  then show ?case
    using lt no_ov by (subst getsize_loop.simps) (simp add: mult.commute add.commute)
qed

lemma capacity_bounds:
  assumes "2 \<le> k" "k < 32"
  shows "2 ^ (k - 1) < capacity k" "capacity k < 2 ^ k" "odd (capacity k)"
proof -
  from delta_facts [OF assms] have d: "delta ! k < 2 ^ (k - 1)" "odd (delta ! k)"
    by simp_all
  have p: "(2::nat) ^ k = 2 * 2 ^ (k - 1)"
    using assms(1) by (cases k) simp_all
  from d p show "2 ^ (k - 1) < capacity k"
    by (simp add: capacity_def)
  from d have "0 < delta ! k"
    by (cases "delta ! k") simp_all
  then show "capacity k < 2 ^ k"
    by (simp add: capacity_def)
  from d p show "odd (capacity k)"
    by (simp add: capacity_def)
qed

lemma getsize_capacity:
  assumes "2 \<le> k" "k \<le> 29" "size_ht ht = capacity k"
  shows "getsize ht = Some (int (capacity (k + 1)))"
proof -
  have k32: "k < 32" using assms(2) by simp
  have "int (capacity k) < int (2 ^ k)" "int (2 ^ (k - 1)) < int (capacity k)"
    using capacity_bounds(1,2) [OF assms(1) k32] by (simp_all only: of_nat_less_iff)
  then have "int (capacity k) \<le> 2 ^ k" "2 ^ (k - 1) < int (capacity k)"
    by simp_all
  then have "getsize_loop (int (capacity k)) (2 ^ 1) (int 1) = Some (2 ^ k, int k)"
    using assms(1,2) by (intro getsize_loop_run) auto
  then have loop: "getsize_loop (int (size_ht ht)) 2 1 = Some (2 ^ k, int k)"
    using assms(3) by simp
  have "(2::int) ^ Suc k \<le> 2 ^ 30"
    using assms(2) by (intro power_increasing) auto
  then have no_ov: "\<not> INT_MAX < (2::int) ^ k * 2"
    by (simp add: INT_MAX_def)
  have "delta ! (k + 1) < 2 ^ k"
    using delta_facts [of "k + 1"] assms by simp
  then have "int (capacity (k + 1)) = 2 ^ k * 2 - int (delta ! (k + 1))"
    by (simp add: capacity_def of_nat_diff)
  moreover have "int MAX_IDX = 32"
    by (simp add: MAX_IDX_def delta_def)
  ultimately show ?thesis
    using loop no_ov assms(2) by (simp add: getsize_def nat_add_distrib)
qed

lemma capacity_mono:
  assumes "i < j" "j < 32"
  shows "capacity i < capacity j"
proof -
  have step: "capacity n < capacity (Suc n)" if "Suc n < 32" for n
  proof (cases "n < 2")
    case True
    then have "n = 0 \<or> n = 1" by auto
    then show ?thesis
      by (auto simp: capacity_def delta_def)
  next
    case False
    with that have "capacity n < 2 ^ n" "2 ^ (Suc n - 1) < capacity (Suc n)"
      using capacity_bounds(2) [of n] capacity_bounds(1) [of "Suc n"] by simp_all
    then show ?thesis by simp
  qed
  from assms show ?thesis
  proof (induction j)
    case 0
    then show ?case by simp
  next
    case (Suc j)
    show ?case
    proof (cases "i = j")
      case True
      with Suc.prems step show ?thesis by simp
    next
      case False
      with Suc.prems have "capacity i < capacity j"
        by (intro Suc.IH) auto
      also have "capacity j < capacity (Suc j)"
        using Suc.prems by (intro step)
      finally show ?thesis .
    qed
  qed
qed

lemma MAX_IDX_32: "MAX_IDX = 32"
  by (simp add: MAX_IDX_def delta_def)

lemma least_above_capacity:
  assumes "k < 31"
  shows "least_above capacity (capacity k) (capacity (k + 1))"
proof -
  have "capacity k < capacity (k + 1)"
    using assms by (intro capacity_mono) auto
  moreover have "\<exists>j\<in>set [0..<MAX_IDX]. capacity (k + 1) = capacity j"
    using assms by (intro bexI [of _ "k + 1"]) (simp_all only: set_upt MAX_IDX_32 atLeastLessThan_iff, simp_all)
  moreover have "\<forall>j\<in>set [0..<MAX_IDX]. capacity k < capacity j \<longrightarrow> capacity (k + 1) \<le> capacity j"
  proof (intro ballI impI)
    fix j assume j: "j \<in> set [0..<MAX_IDX]" and lt: "capacity k < capacity j"
    from j have j32: "j < 32" by (simp only: set_upt MAX_IDX_32 atLeastLessThan_iff)
    have "k < j"
    proof (rule ccontr)
      assume "\<not> k < j"
      then have "j = k \<or> j < k" by auto
      then have "capacity j \<le> capacity k"
        using capacity_mono [of j k] assms by auto
      with lt show False by simp
    qed
    then have "k + 1 = j \<or> k + 1 < j" by auto
    then show "capacity (k + 1) \<le> capacity j"
      using capacity_mono [of "k + 1" j] j32 by auto
  qed
  ultimately show ?thesis
    by (simp only: least_above_def list_ex_iff list_all_iff simp_thms)
qed

lemma capacity_not_power:
  assumes "2 \<le> k" "k < 32"
  shows "capacity k \<noteq> 2 ^ m"
proof
  assume eq: "capacity k = 2 ^ m"
  have "(2::nat) ^ 1 \<le> 2 ^ (k - 1)"
    using assms(1) by (intro power_increasing) auto
  with capacity_bounds [OF assms] have "odd (capacity k)" "1 < capacity k"
    by simp_all
  with eq show False
    by (cases m) simp_all
qed

subsection \<open>Chains\<close>

lemma chain_has_key_iff:
  "chain_has_key c q es \<longleftrightarrow> (\<exists>e\<in>set es. c q (fst e) = 0)"
  by (induction es) auto

lemma chain_search_None_iff:
  "chain_search c q es = None \<longleftrightarrow> (\<forall>e\<in>set es. c q (fst e) \<noteq> 0)"
  by (induction es) auto

lemma chain_search_SomeD:
  "chain_search c q es = Some v \<Longrightarrow> \<exists>k. (k, v) \<in> set es \<and> c q k = 0"
  by (induction es) (auto split: if_splits)

lemma chain_search_unique:
  assumes "consistent h c" "keys_distinct c es" "(k, v) \<in> set es" "c q k = 0"
  shows "chain_search c q es = Some v"
  using assms(2,3)
proof (induction es)
  case Nil
  then show ?case by simp
next
  case (Cons e es)
  show ?case
  proof (cases "c q (fst e) = 0")
    case True
    have "e = (k, v)"
    proof (rule ccontr)
      assume ne: "e \<noteq> (k, v)"
      from True assms(1,4) have "c (fst e) k = 0"
        unfolding consistent_def by blast
      with Cons.prems ne show False
        unfolding keys_distinct_def by (metis fst_conv list.set_intros(1))
    qed
    with True show ?thesis by simp
  next
    case False
    with assms(4) have "e \<noteq> (k, v)" by auto
    with Cons.prems have "(k, v) \<in> set es" "keys_distinct c es"
      by (auto simp: keys_distinct_def)
    with False Cons.IH show ?thesis by simp
  qed
qed

lemma chain_search_append:
  "chain_search c q (xs @ ys) =
     (case chain_search c q xs of None \<Rightarrow> chain_search c q ys | Some v \<Rightarrow> Some v)"
  by (induction xs) auto

lemma keys_distinct_mset:
  assumes "mset es = mset es'"
  shows "keys_distinct c es = keys_distinct c es'"
proof -
  from assms have "set es = set es'" "distinct es = distinct es'"
    by (rule mset_eq_setD, rule mset_eq_imp_distinct_iff)
  then show ?thesis
    by (simp add: keys_distinct_def)
qed

lemma chain_search_mset:
  assumes "consistent h c" "keys_distinct c es" "mset es = mset es'"
  shows "chain_search c q es = chain_search c q es'"
proof (cases "chain_search c q es")
  case None
  then have "\<forall>e\<in>set es'. c q (fst e) \<noteq> 0"
    using mset_eq_setD [OF assms(3)] by (simp add: chain_search_None_iff)
  then have "chain_search c q es' = None"
    by (simp only: chain_search_None_iff)
  with None show ?thesis
    by simp
next
  case (Some v)
  then obtain k where "(k, v) \<in> set es" "c q k = 0"
    by (auto dest: chain_search_SomeD)
  moreover have "keys_distinct c es'" "set es = set es'"
    using assms(2,3) keys_distinct_mset [of es es' c] mset_eq_setD [of es es'] by simp_all
  ultimately have "chain_search c q es' = Some v"
    using assms(1) by (intro chain_search_unique [where k = k]) auto
  with Some show ?thesis by simp
qed

subsection \<open>Bucket arrays\<close>

lemma mset_concat_push:
  "i < length t \<Longrightarrow> mset (concat (t[i := e # t ! i])) = add_mset e (mset (concat t))"
proof (induction t arbitrary: i)
  case Nil
  then show ?case by simp
next
  case (Cons b t)
  then show ?case by (cases i) simp_all
qed

lemma buckets_ok_push:
  "buckets_ok h n t \<Longrightarrow> i < length t \<Longrightarrow> h (fst e) n = i \<Longrightarrow>
     buckets_ok h n (t[i := e # t ! i])"
  by (auto simp: buckets_ok_def nth_list_update)

lemma buckets_ok_replicate: "buckets_ok h n (replicate m [])"
  by (simp add: buckets_ok_def)

lemma malloc_cases:
  "malloc a = (True, a') \<longleftrightarrow> 0 < a \<and> a' = a - 1"
  "malloc a = (False, a') \<longleftrightarrow> a = 0 \<and> a' = 0"
  by (auto simp: malloc_def)

lemma rehash_chain_done:
  "rehash_chain h n es ft a = Some (Some ft', a') \<Longrightarrow>
     length ft' = length ft \<and> length es \<le> a \<and> a' = a - length es \<and>
     mset (concat ft') = mset es + mset (concat ft) \<and>
     (buckets_ok h n ft \<longrightarrow> buckets_ok h n ft')"
proof (induction es arbitrary: ft a)
  case Nil
  then show ?case by simp
next
  case (Cons e es)
  let ?i = "h (fst e) n"
  from Cons.prems have a: "0 < a" and i: "?i < length ft"
    and rec: "rehash_chain h n es (ft[?i := e # ft ! ?i]) (a - 1) = Some (Some ft', a')"
    by (auto simp: Let_def malloc_def split: if_splits bool.splits)
  from Cons.IH [OF rec] a i show ?case
    by (auto simp: mset_concat_push buckets_ok_push)
qed

lemma rehash_chain_failed:
  "rehash_chain h n es ft a = Some (None, a') \<Longrightarrow> a' = 0"
  by (induction es arbitrary: ft a) (auto simp: Let_def malloc_def split: if_splits bool.splits)

lemma rehash_chain_defined:
  "\<forall>e\<in>set es. h (fst e) n < length ft \<Longrightarrow> rehash_chain h n es ft a \<noteq> None"
  by (induction es arbitrary: ft a) (auto simp: Let_def malloc_def split: bool.splits)

lemma rehash_buckets_done:
  "rehash_buckets h n bs ft a = Some (Some ft', a') \<Longrightarrow>
     length ft' = length ft \<and> length (concat bs) \<le> a \<and> a' = a - length (concat bs) \<and>
     mset (concat ft') = mset (concat bs) + mset (concat ft) \<and>
     (buckets_ok h n ft \<longrightarrow> buckets_ok h n ft')"
proof (induction bs arbitrary: ft a)
  case Nil
  then show ?case by simp
next
  case (Cons b bs)
  from Cons.prems obtain ft1 a1 where
    b: "rehash_chain h n b ft a = Some (Some ft1, a1)" and
    rec: "rehash_buckets h n bs ft1 a1 = Some (Some ft', a')"
    by (auto split: option.splits prod.splits)
  from rehash_chain_done [OF b] Cons.IH [OF rec] show ?case
    by auto
qed

lemma rehash_buckets_failed:
  "rehash_buckets h n bs ft a = Some (None, a') \<Longrightarrow> a' = 0"
  by (induction bs arbitrary: ft a)
     (auto split: option.splits prod.splits bool.splits dest: rehash_chain_failed)

lemma rehash_buckets_defined:
  "\<forall>e\<in>set (concat bs). h (fst e) n < length ft \<Longrightarrow> rehash_buckets h n bs ft a \<noteq> None"
proof (induction bs arbitrary: ft a)
  case Nil
  then show ?case by simp
next
  case (Cons b bs)
  then have "rehash_chain h n b ft a \<noteq> None"
    by (intro rehash_chain_defined) auto
  then obtain r a1 where b: "rehash_chain h n b ft a = Some (r, a1)"
    by auto
  show ?case
  proof (cases r)
    case None
    with b show ?thesis by simp
  next
    case (Some ft1)
    with b have "length ft1 = length ft"
      by (auto dest: rehash_chain_done)
    with Cons.prems have "rehash_buckets h n bs ft1 a1 \<noteq> None"
      by (intro Cons.IH) auto
    with b Some show ?thesis by simp
  qed
qed

subsection \<open>Growth\<close>

lemma getsize_capacity_30:
  assumes "size_ht ht = capacity 30"
  shows "getsize ht = None"
proof -
  have "int (capacity 30) < int (2 ^ 30)" "int (2 ^ (30 - 1)) < int (capacity 30)"
    using capacity_bounds(1,2) [of 30] by (simp_all only: of_nat_less_iff)
  then have "int (capacity 30) \<le> 2 ^ 30" "2 ^ (30 - 1) < int (capacity 30)"
    by simp_all
  then have "getsize_loop (int (capacity 30)) (2 ^ 1) (int 1) = Some (2 ^ 30, int 30)"
    by (intro getsize_loop_run) auto
  with assms show ?thesis
    by (simp add: getsize_def INT_MAX_def)
qed

lemma capacity_pos: "k \<in> {4..30} \<Longrightarrow> 0 < capacity k"
  using capacity_bounds(1) [of k] by (cases "capacity k") auto

lemma ht_shape_getsize:
  assumes "ht_shape ht" "getsize ht = Some us"
  shows "\<exists>k\<in>{4..29}. size_ht ht = capacity k \<and> us = int (capacity (k + 1))"
proof -
  from assms(1) obtain k where k: "k \<in> {4..30}" "size_ht ht = capacity k"
    by (auto simp: ht_shape_def)
  have "k \<noteq> 30"
    using assms(2) k(2) getsize_capacity_30 [of ht] by auto
  with k(1) have k29: "k \<in> {4..29}" by auto
  then have "getsize ht = Some (int (capacity (k + 1)))"
    using k(2) by (intro getsize_capacity) auto
  with assms(2) k29 k(2) show ?thesis by auto
qed

lemma rehash_result:
  assumes "ht_shape ht" "rehash ht a = Some (ht', a')"
  shows "ht_shape ht'"
    and "num_entries ht' = num_entries ht"
    and "hash ht' = hash ht"
    and "cmp ht' = cmp ht"
    and "max_loadfactor ht' = max_loadfactor ht"
    and "mset (entries ht') = mset (entries ht)"
    and "size_ht ht \<le> size_ht ht'"
    and "0 < a' \<Longrightarrow> \<exists>k\<in>{4..29}. size_ht ht = capacity k \<and> size_ht ht' = capacity (k + 1)"
proof -
  from assms(2) obtain us where us: "getsize ht = Some us"
    by (auto simp: rehash_def split: option.splits)
  from ht_shape_getsize [OF assms(1) us] obtain k where
    k: "k \<in> {4..29}" "size_ht ht = capacity k" "us = int (capacity (k + 1))"
    by auto
  have mono: "capacity k < capacity (k + 1)"
    using k(1) by (intro capacity_mono) auto
  let ?rb = "rehash_buckets (hash ht) (capacity (k + 1)) (live ht)
               (replicate (capacity (k + 1)) []) (a - 1)"
  have unfolded: "rehash ht a =
      (if a = 0 then Some (ht, 0)
       else if length (table ht) < size_ht ht then None
       else (case ?rb of
               None \<Rightarrow> None
             | Some (None, a2) \<Rightarrow> Some (ht, a2)
             | Some (Some ft, a2) \<Rightarrow> Some (ht\<lparr>table := ft, size_ht := capacity (k + 1)\<rparr>, a2)))"
    using us k(3) by (simp add: rehash_def live_def malloc_def cong: option.case_cong prod.case_cong)
  consider
    (same) "ht' = ht" "a' = 0"
  | (grown) ft where "ht' = ht\<lparr>table := ft, size_ht := capacity (k + 1)\<rparr>"
      "?rb = Some (Some ft, a')"
  proof (cases "a = 0")
    case True
    with assms(2) unfolded have "ht' = ht" "a' = 0" by simp_all
    then show ?thesis by (rule same)
  next
    case False
    with assms(2) unfolded obtain r a2 where rb: "?rb = Some (r, a2)"
      by (cases ?rb) (auto split: if_splits)
    show ?thesis
    proof (cases r)
      case None
      with rb have "a2 = 0" by (auto dest: rehash_buckets_failed)
      with assms(2) unfolded False rb None have "ht' = ht" "a' = 0"
        by (simp_all split: if_splits)
      then show ?thesis by (rule same)
    next
      case (Some ft)
      with assms(2) unfolded False rb
      have "ht' = ht\<lparr>table := ft, size_ht := capacity (k + 1)\<rparr>" "?rb = Some (Some ft, a')"
        by (simp_all split: if_splits)
      then show ?thesis by (rule grown)
    qed
  qed
  then have
    "ht_shape ht' \<and> num_entries ht' = num_entries ht \<and> hash ht' = hash ht \<and> cmp ht' = cmp ht \<and>
     max_loadfactor ht' = max_loadfactor ht \<and> mset (entries ht') = mset (entries ht) \<and>
     size_ht ht \<le> size_ht ht' \<and>
     (0 < a' \<longrightarrow> (\<exists>k\<in>{4..29}. size_ht ht = capacity k \<and> size_ht ht' = capacity (k + 1)))"
  proof cases
    case same
    with assms(1) show ?thesis by simp
  next
    case grown
    from rehash_buckets_done [OF grown(2)]
    have ft: "length ft = capacity (k + 1)" "mset (concat ft) = mset (concat (live ht))"
      "buckets_ok (hash ht) (capacity (k + 1)) ft"
      by (simp_all add: buckets_ok_replicate)
    have "k + 1 \<in> {4..30}" using k(1) by auto
    with ft grown(1) have "ht_shape ht'"
      by (auto simp: ht_shape_def live_def)
    with ft grown(1) k mono show ?thesis
      by (auto simp: entries_def live_def)
  qed
  then show "ht_shape ht'"
    and "num_entries ht' = num_entries ht"
    and "hash ht' = hash ht"
    and "cmp ht' = cmp ht"
    and "max_loadfactor ht' = max_loadfactor ht"
    and "mset (entries ht') = mset (entries ht)"
    and "size_ht ht \<le> size_ht ht'"
    and "0 < a' \<Longrightarrow> \<exists>k\<in>{4..29}. size_ht ht = capacity k \<and> size_ht ht' = capacity (k + 1)"
    by blast+
qed

lemma rehash_defined:
  assumes "ht_shape ht" "size_ht ht \<noteq> capacity 30" "\<forall>q n. 0 < n \<longrightarrow> hash ht q n < n"
  shows "rehash ht a \<noteq> None"
proof -
  from assms(1) obtain k where k0: "k \<in> {4..30}" "size_ht ht = capacity k"
    by (auto simp: ht_shape_def)
  with assms(2) have "k \<noteq> 30" by auto
  with k0 have k: "k \<in> {4..29}" "size_ht ht = capacity k"
    by auto
  then have us: "getsize ht = Some (int (capacity (k + 1)))"
    by (intro getsize_capacity) auto
  have "0 < capacity (k + 1)"
    using k(1) by (intro capacity_pos) auto
  with assms(3) have
    "rehash_buckets (hash ht) (capacity (k + 1)) (live ht) (replicate (capacity (k + 1)) []) (a - 1) \<noteq> None"
    by (intro rehash_buckets_defined) auto
  with us assms(1) show ?thesis
    by (auto simp: rehash_def live_def ht_shape_def malloc_def
             split: option.splits prod.splits bool.splits)
qed

subsection \<open>Tables\<close>

lemma ht_shape_index:
  assumes "ht_shape ht" "\<forall>q n. 0 < n \<longrightarrow> hash ht q n < n"
  shows "hash ht q (size_ht ht) < size_ht ht"
    and "hash ht q (size_ht ht) < length (table ht)"
    and "table ht ! hash ht q (size_ht ht) = live ht ! hash ht q (size_ht ht)"
    and "hash ht q (size_ht ht) < length (live ht)"
proof -
  from assms(1) have "0 < size_ht ht" and le: "size_ht ht \<le> length (table ht)"
    by (auto simp: ht_shape_def capacity_pos)
  with assms(2) show lt: "hash ht q (size_ht ht) < size_ht ht"
    by simp
  from lt le show "hash ht q (size_ht ht) < length (table ht)"
    by (rule less_le_trans)
  show "table ht ! hash ht q (size_ht ht) = live ht ! hash ht q (size_ht ht)"
    unfolding live_def by (rule nth_take [OF lt, symmetric])
  have "length (live ht) = size_ht ht"
    unfolding live_def using le by (rule min_absorb2 [THEN trans [OF length_take]])
  with lt show "hash ht q (size_ht ht) < length (live ht)"
    by (rule ssubst [where P = "\<lambda>n. hash ht q (size_ht ht) < n", rotated])
qed

lemma consistent_range: "consistent h c \<Longrightarrow> \<forall>q n. 0 < n \<longrightarrow> h q n < n"
  unfolding consistent_def by blast

lemma consistent_refl: "consistent h c \<Longrightarrow> c a a = 0"
  unfolding consistent_def by blast

lemma consistent_sym: "consistent h c \<Longrightarrow> c a b = 0 \<Longrightarrow> c b a = 0"
  unfolding consistent_def by blast

lemma consistent_hash: "consistent h c \<Longrightarrow> c a b = 0 \<Longrightarrow> h a n = h b n"
  unfolding consistent_def by blast

lemma entry_in_bucket:
  assumes "ht_inv ht" "e \<in> set (entries ht)" "cmp ht q (fst e) = 0"
  shows "e \<in> set (live ht ! hash ht q (size_ht ht))"
proof -
  from assms(2) obtain b where "b \<in> set (live ht)" "e \<in> set b"
    by (auto simp: entries_def)
  then obtain j where j: "j < length (live ht)" "e \<in> set (live ht ! j)"
    by (auto simp: in_set_conv_nth)
  with assms(1) have "hash ht (fst e) (size_ht ht) = j"
    by (auto simp: ht_inv_def ht_shape_def buckets_ok_def)
  moreover from assms(1,3) have "hash ht q (size_ht ht) = hash ht (fst e) (size_ht ht)"
    by (intro consistent_hash [where c = "cmp ht"]) (simp_all add: ht_inv_def)
  ultimately show ?thesis
    using j(2) by simp
qed

lemma bucket_subset_entries:
  assumes "ht_inv ht"
  shows "set (live ht ! hash ht q (size_ht ht)) \<subseteq> set (entries ht)"
proof -
  from assms have "hash ht q (size_ht ht) < length (live ht)"
    by (intro ht_shape_index(4)) (auto simp: ht_inv_def consistent_range)
  then have "live ht ! hash ht q (size_ht ht) \<in> set (live ht)"
    by (rule nth_mem)
  then show ?thesis
    by (auto simp: entries_def)
qed

lemma bucket_has_key:
  assumes "ht_inv ht"
  shows "chain_has_key (cmp ht) q (live ht ! hash ht q (size_ht ht)) \<longleftrightarrow>
           (\<exists>e\<in>set (entries ht). cmp ht q (fst e) = 0)"
  using entry_in_bucket [OF assms] bucket_subset_entries [OF assms, of q]
  by (auto simp: chain_has_key_iff)

lemma keys_distinct_bucket:
  assumes "ht_inv ht"
  shows "keys_distinct (cmp ht) (live ht ! hash ht q (size_ht ht))"
proof -
  let ?i = "hash ht q (size_ht ht)"
  from assms have i: "?i < length (live ht)"
    by (intro ht_shape_index(4)) (auto simp: ht_inv_def consistent_range)
  from assms have "distinct (concat (live ht))"
    by (simp add: ht_inv_def keys_distinct_def entries_def)
  with i have "distinct (live ht ! ?i)"
    by (auto simp: distinct_concat_iff)
  moreover from assms have
    "\<forall>e\<in>set (entries ht). \<forall>e'\<in>set (entries ht). e \<noteq> e' \<longrightarrow> cmp ht (fst e) (fst e') \<noteq> 0"
    by (simp add: ht_inv_def keys_distinct_def)
  with bucket_subset_entries [OF assms, of q] have
    "\<forall>e\<in>set (live ht ! ?i). \<forall>e'\<in>set (live ht ! ?i). e \<noteq> e' \<longrightarrow> cmp ht (fst e) (fst e') \<noteq> 0"
    by (meson subsetD)
  ultimately show ?thesis
    by (simp add: keys_distinct_def)
qed

lemma bucket_search:
  assumes "ht_inv ht"
  shows "chain_search (cmp ht) q (live ht ! hash ht q (size_ht ht)) =
           chain_search (cmp ht) q (entries ht)"
proof (cases "chain_search (cmp ht) q (entries ht)")
  case None
  then have "\<forall>e\<in>set (live ht ! hash ht q (size_ht ht)). cmp ht q (fst e) \<noteq> 0"
    using bucket_subset_entries [OF assms, of q] by (auto simp: chain_search_None_iff)
  then have "chain_search (cmp ht) q (live ht ! hash ht q (size_ht ht)) = None"
    by (simp only: chain_search_None_iff)
  with None show ?thesis by simp
next
  case (Some v)
  then obtain k where k: "(k, v) \<in> set (entries ht)" "cmp ht q k = 0"
    by (auto dest: chain_search_SomeD)
  then have "(k, v) \<in> set (live ht ! hash ht q (size_ht ht))"
    using entry_in_bucket [OF assms, of "(k, v)" q] by simp
  with assms k(2) have "chain_search (cmp ht) q (live ht ! hash ht q (size_ht ht)) = Some v"
    by (intro chain_search_unique [where h = "hash ht" and k = k])
       (auto simp: ht_inv_def keys_distinct_bucket)
  with Some show ?thesis by simp
qed

lemma ht_search_entries:
  assumes "ht_inv ht"
  shows "ht_search (Some ht) (Some q) = Some (chain_search (cmp ht) q (entries ht))"
proof -
  from assms have sh: "ht_shape ht" "\<forall>q n. 0 < n \<longrightarrow> hash ht q n < n"
    by (auto simp: ht_inv_def consistent_range)
  from ht_shape_index(2,3) [OF sh, of q] bucket_search [OF assms, of q] show ?thesis
    by (simp add: ht_search_def Let_def)
qed

lemma ht_init_result:
  assumes "ht_init L h c a = (Some ht, a')"
  shows "ht_shape ht" "entries ht = []" "num_entries ht = 0" "size_ht ht = 13"
    "max_loadfactor ht = L" "hash ht = h" "cmp ht = c" "a' = a - 2" "2 \<le> a"
proof -
  from assms have ht: "ht = \<lparr>table = replicate 16 [], size_ht = 13, num_entries = 0,
      max_loadfactor = L, idx = 4, hash = h, cmp = c\<rparr>" and a: "a' = a - 2" "2 \<le> a"
    by (auto simp: ht_init_def talloc_def malloc_def INITIAL_DELTA_INDEX_def
             split: if_splits bool.splits prod.splits)
  have "capacity 4 = 13"
    by (simp add: capacity_def delta_def)
  then have "\<exists>k\<in>{4..30}. (13::nat) = capacity k"
    by (intro bexI [of _ 4]) auto
  with ht show "ht_shape ht"
    by (simp add: ht_shape_def live_def buckets_ok_def)
  from ht show "entries ht = []" "num_entries ht = 0" "size_ht ht = 13"
    "max_loadfactor ht = L" "hash ht = h" "cmp ht = c"
    by (simp_all add: entries_def live_def)
  from a show "a' = a - 2" "2 \<le> a" by simp_all
qed

lemma ht_init_inv:
  "ht_init L h c a = (Some ht, a') \<Longrightarrow> consistent h c \<Longrightarrow> ht_inv ht"
  using ht_init_result [of L h c a ht a']
  by (simp add: ht_inv_def keys_distinct_def)

lemma keys_distinct_Cons:
  assumes "consistent h c" "keys_distinct c es" "\<forall>e\<in>set es. c k (fst e) \<noteq> 0"
  shows "keys_distinct c ((k, v) # es)"
proof -
  have "(k, v) \<notin> set es"
    using assms(3) consistent_refl [OF assms(1), of k] by force
  moreover have "c (fst e) k \<noteq> 0" if "e \<in> set es" for e
    using assms(3) that consistent_sym [OF assms(1), of "fst e" k] by blast
  ultimately show ?thesis
    using assms(2,3) by (auto simp: keys_distinct_def)
qed

text \<open>The step of \<open>ht_insert\<close> that grows the table or leaves it.\<close>

lemma grow_step:
  assumes "ht_inv ht"
    and "(if g then rehash ht a else Some (ht, a)) = Some (ht1, a1)"
  shows "ht_inv ht1" "num_entries ht1 = num_entries ht" "hash ht1 = hash ht" "cmp ht1 = cmp ht"
    "max_loadfactor ht1 = max_loadfactor ht" "mset (entries ht1) = mset (entries ht)"
    "size_ht ht \<le> size_ht ht1" "a1 \<le> a"
proof -
  have sh: "ht_shape ht" using assms(1) by (simp add: ht_inv_def)
  have *: "ht_shape ht1 \<and> num_entries ht1 = num_entries ht \<and> hash ht1 = hash ht \<and>
      cmp ht1 = cmp ht \<and> max_loadfactor ht1 = max_loadfactor ht \<and>
      mset (entries ht1) = mset (entries ht) \<and> size_ht ht \<le> size_ht ht1"
  proof (cases g)
    case True
    with assms(2) have "rehash ht a = Some (ht1, a1)" by simp
    from rehash_result(1-7) [OF sh this] show ?thesis by simp
  next
    case False
    with assms(2) sh show ?thesis by simp
  qed
  then show "num_entries ht1 = num_entries ht" "hash ht1 = hash ht" "cmp ht1 = cmp ht"
    "max_loadfactor ht1 = max_loadfactor ht" "mset (entries ht1) = mset (entries ht)"
    "size_ht ht \<le> size_ht ht1"
    by simp_all
  from * assms(1) keys_distinct_mset [of "entries ht1" "entries ht" "cmp ht"]
  show "ht_inv ht1"
    by (simp add: ht_inv_def)
  show "a1 \<le> a"
  proof (cases g)
    case True
    with assms(2) have r: "rehash ht a = Some (ht1, a1)" by simp
    then obtain us where "getsize ht = Some us"
      by (auto simp: rehash_def split: option.splits)
    with r show ?thesis
      by (auto simp: rehash_def malloc_def
               split: option.splits prod.splits bool.splits if_splits
               dest!: rehash_buckets_done rehash_buckets_failed)
  next
    case False
    with assms(2) show ?thesis by simp
  qed
qed

lemma ht_insert_unfold:
  "ht_insert (Some ht) (Some k) (Some v) a =
     (if a = 0 then Some (EXIT_FAILURE, Some ht, 0)
      else
        (case (if grows ht then rehash ht (a - 1) else Some (ht, a - 1)) of
           None \<Rightarrow> None
         | Some (ht1, a2) \<Rightarrow>
             if length (table ht1) \<le> hash ht1 k (size_ht ht1) then None
             else if chain_has_key (cmp ht1) k (table ht1 ! hash ht1 k (size_ht ht1))
             then Some (HASH_TABLE_KEY_VALUE_PAIR_EXISTS, Some ht1, a2)
             else Some (EXIT_SUCCESS,
                    Some (ht1\<lparr>table := (table ht1)[hash ht1 k (size_ht ht1) :=
                                         (k, v) # table ht1 ! hash ht1 k (size_ht ht1)],
                              num_entries := (num_entries ht1 + 1) mod 2 ^ 32\<rparr>),
                    a2)))"
  by (simp add: ht_insert_def malloc_def grows_def Let_def cong: option.case_cong prod.case_cong if_cong)

lemma return_codes_distinct:
  "EXIT_SUCCESS \<noteq> EXIT_FAILURE" "EXIT_SUCCESS \<noteq> HASH_TABLE_KEY_VALUE_PAIR_EXISTS"
  "EXIT_FAILURE \<noteq> HASH_TABLE_KEY_VALUE_PAIR_EXISTS"
  by (simp_all add: EXIT_SUCCESS_def EXIT_FAILURE_def HASH_TABLE_KEY_VALUE_PAIR_EXISTS_def)

lemma push_entry:
  fixes ht1 :: "('k, 'v) hashtab" and k :: 'k and v :: 'v
  assumes "ht_inv ht1" "\<forall>e\<in>set (entries ht1). cmp ht1 k (fst e) \<noteq> 0"
  defines "i \<equiv> hash ht1 k (size_ht ht1)"
  defines "ht' \<equiv> ht1\<lparr>table := (table ht1)[i := (k, v) # table ht1 ! i],
                        num_entries := (num_entries ht1 + 1) mod 2 ^ 32\<rparr>"
  shows "ht_inv ht'" "mset (entries ht') = add_mset (k, v) (mset (entries ht1))"
proof -
  from assms(1) have sh: "ht_shape ht1" "\<forall>q n. 0 < n \<longrightarrow> hash ht1 q n < n"
    and co: "consistent (hash ht1) (cmp ht1)"
    by (auto simp: ht_inv_def consistent_range)
  from ht_shape_index [OF sh, of k] have i: "i < size_ht ht1" "i < length (table ht1)"
    "table ht1 ! i = live ht1 ! i" "i < length (live ht1)"
    by (simp_all add: i_def)
  have live': "live ht' = (live ht1)[i := (k, v) # live ht1 ! i]"
    using i by (simp add: ht'_def live_def take_update_swap)
  then show m: "mset (entries ht') = add_mset (k, v) (mset (entries ht1))"
    using i(4) by (simp add: entries_def mset_concat_push)
  have "buckets_ok (hash ht1) (size_ht ht1) (live ht')"
    unfolding live' using sh(1) i(4)
    by (intro buckets_ok_push) (simp_all add: ht_shape_def i_def)
  with sh(1) have "ht_shape ht'"
    by (simp add: ht_shape_def ht'_def)
  moreover have "keys_distinct (cmp ht1) ((k, v) # entries ht1)"
    using co assms(1,2) by (intro keys_distinct_Cons) (auto simp: ht_inv_def)
  then have "keys_distinct (cmp ht1) (entries ht')"
    using m keys_distinct_mset [of "entries ht'" "(k, v) # entries ht1" "cmp ht1"] by simp
  ultimately show "ht_inv ht'"
    using co by (simp add: ht_inv_def ht'_def)
qed

lemma ht_insert_result:
  assumes "ht_inv ht" "ht_insert (Some ht) (Some k) (Some v) a = Some (r, htp, a')"
  shows "\<exists>ht'. htp = Some ht' \<and> ht_inv ht' \<and> hash ht' = hash ht \<and> cmp ht' = cmp ht \<and>
           max_loadfactor ht' = max_loadfactor ht \<and> size_ht ht \<le> size_ht ht' \<and> a' \<le> a \<and>
           ((r = EXIT_FAILURE \<and> a = 0 \<and> ht' = ht) \<or>
            (r = HASH_TABLE_KEY_VALUE_PAIR_EXISTS \<and> 0 < a \<and>
               (\<exists>e\<in>set (entries ht). cmp ht k (fst e) = 0) \<and>
               mset (entries ht') = mset (entries ht) \<and> num_entries ht' = num_entries ht) \<or>
            (r = EXIT_SUCCESS \<and> 0 < a \<and>
               (\<forall>e\<in>set (entries ht). cmp ht k (fst e) \<noteq> 0) \<and>
               mset (entries ht') = add_mset (k, v) (mset (entries ht)) \<and>
               num_entries ht' = (num_entries ht + 1) mod 2 ^ 32))"
proof (cases "a = 0")
  case True
  with assms show ?thesis
    by (simp add: ht_insert_unfold)
next
  case False
  with assms(2) obtain ht1 a2 where
    g: "(if grows ht then rehash ht (a - 1) else Some (ht, a - 1)) = Some (ht1, a2)"
    by (auto simp: ht_insert_unfold split: option.splits)
  note g1 = grow_step [OF assms(1) g]
  let ?i = "hash ht1 k (size_ht ht1)"
  from g1(1) have sh: "ht_shape ht1" "\<forall>q n. 0 < n \<longrightarrow> hash ht1 q n < n"
    by (auto simp: ht_inv_def consistent_range)
  note i = ht_shape_index [OF sh, of k]
  have has: "chain_has_key (cmp ht1) k (table ht1 ! ?i) \<longleftrightarrow>
      (\<exists>e\<in>set (entries ht). cmp ht k (fst e) = 0)"
    using bucket_has_key [OF g1(1), of k] i(3) g1(4) mset_eq_setD [OF g1(6)] by simp
  show ?thesis
  proof (cases "chain_has_key (cmp ht1) k (table ht1 ! ?i)")
    case True
    with assms(2) False g i(2) have "r = HASH_TABLE_KEY_VALUE_PAIR_EXISTS" "htp = Some ht1" "a' = a2"
      by (simp_all add: ht_insert_unfold)
    with g1 True has False show ?thesis
      by simp
  next
    case nokey: False
    let ?ht' = "ht1\<lparr>table := (table ht1)[?i := (k, v) # table ht1 ! ?i],
                    num_entries := (num_entries ht1 + 1) mod 2 ^ 32\<rparr>"
    from assms(2) False g i(2) nokey have res: "r = EXIT_SUCCESS" "htp = Some ?ht'" "a' = a2"
      by (simp_all add: ht_insert_unfold)
    from nokey has have none: "\<forall>e\<in>set (entries ht1). cmp ht1 k (fst e) \<noteq> 0"
      using g1(4) mset_eq_setD [OF g1(6)] by simp
    from push_entry [OF g1(1) none, of v] g1 res nokey has False
    show ?thesis
      by (simp add: return_codes_distinct)
  qed
qed

subsection \<open>Counters and capacities, for any hash and compare function\<close>

lemma ht_insert_shape:
  assumes "ht_shape ht" "ht_insert (Some ht) (Some k) (Some v) a = Some (r, htp, a')"
  shows "\<exists>ht'. htp = Some ht' \<and> ht_shape ht' \<and> max_loadfactor ht' = max_loadfactor ht \<and>
           hash ht' = hash ht \<and> cmp ht' = cmp ht \<and> a' \<le> a \<and>
           size_ht ht \<le> size_ht ht' \<and>
           (grows ht \<and> 0 < a' \<longrightarrow>
              (\<exists>j\<in>{4..29}. size_ht ht = capacity j \<and> size_ht ht' = capacity (j + 1))) \<and>
           (\<not> grows ht \<longrightarrow> size_ht ht' = size_ht ht) \<and>
           (num_entries ht' = num_entries ht \<or>
            num_entries ht' = (num_entries ht + 1) mod 2 ^ 32)"
proof (cases "a = 0")
  case True
  with assms show ?thesis
    by (auto simp: ht_insert_unfold)
next
  case False
  with assms(2) obtain ht1 a2 where
    g: "(if grows ht then rehash ht (a - 1) else Some (ht, a - 1)) = Some (ht1, a2)"
    by (auto simp: ht_insert_unfold split: option.splits)
  have g1: "ht_shape ht1 \<and> num_entries ht1 = num_entries ht \<and> hash ht1 = hash ht \<and>
      cmp ht1 = cmp ht \<and> max_loadfactor ht1 = max_loadfactor ht \<and> size_ht ht \<le> size_ht ht1 \<and>
      (\<not> grows ht \<longrightarrow> size_ht ht1 = size_ht ht) \<and>
      (grows ht \<and> 0 < a2 \<longrightarrow>
         (\<exists>j\<in>{4..29}. size_ht ht = capacity j \<and> size_ht ht1 = capacity (j + 1)))"
  proof (cases "grows ht")
    case True
    with g have "rehash ht (a - 1) = Some (ht1, a2)" by simp
    from rehash_result [OF assms(1) this] True show ?thesis by simp
  next
    case False
    with g assms(1) show ?thesis by simp
  qed
  have a2: "a2 \<le> a"
  proof (cases "grows ht")
    case True
    with g have r: "rehash ht (a - 1) = Some (ht1, a2)" by simp
    then obtain us where "getsize ht = Some us"
      by (auto simp: rehash_def split: option.splits)
    with r have "a2 \<le> a - 1"
      by (auto simp: rehash_def malloc_def
               split: option.splits prod.splits bool.splits if_splits
               dest!: rehash_buckets_done rehash_buckets_failed)
    then show ?thesis by simp
  next
    case False
    with g show ?thesis by auto
  qed
  let ?i = "hash ht1 k (size_ht ht1)"
  let ?ht' = "ht1\<lparr>table := (table ht1)[?i := (k, v) # table ht1 ! ?i],
                  num_entries := (num_entries ht1 + 1) mod 2 ^ 32\<rparr>"
  from assms(2) False g have i: "?i < length (table ht1)"
    by (auto simp: ht_insert_unfold split: if_splits)
  from g1 have sh1: "ht_shape ht1" by simp
  have shape': "ht_shape ?ht'"
  proof (cases "?i < size_ht ht1")
    case True
    with sh1 have "?i < length (live ht1)" "table ht1 ! ?i = live ht1 ! ?i"
      by (simp_all add: live_def ht_shape_def)
    moreover have "live ?ht' = (live ht1)[?i := (k, v) # table ht1 ! ?i]"
      by (simp add: live_def take_update_swap)
    moreover have "buckets_ok (hash ht1) (size_ht ht1) (live ht1)"
      using sh1 by (simp add: ht_shape_def)
    ultimately have "buckets_ok (hash ht1) (size_ht ht1) (live ?ht')"
      by (simp add: buckets_ok_push)
    with sh1 show ?thesis
      by (simp add: ht_shape_def)
  next
    case False
    then have "live ?ht' = live ht1"
      by (simp add: live_def)
    with sh1 show ?thesis
      by (simp add: ht_shape_def)
  qed
  from assms(2) False g i consider
    "r = HASH_TABLE_KEY_VALUE_PAIR_EXISTS" "htp = Some ht1" "a' = a2"
  | "r = EXIT_SUCCESS" "htp = Some ?ht'" "a' = a2"
    by (auto simp: ht_insert_unfold split: if_splits)
  then show ?thesis
  proof cases
    case 1
    with g1 a2 show ?thesis by auto
  next
    case 2
    with g1 a2 shape' show ?thesis by auto
  qed
qed

lemma f32_of_nat_mono: "m \<le> n \<Longrightarrow> f32_of_nat m \<le> f32_of_nat n"
  by (simp add: f32_of_nat_def f32_round_mono)

lemma f32_of_nat_bounds:
  "(1 - 1 / 2 ^ 24) * rat_of_nat n \<le> f32_of_nat n" "f32_of_nat n \<le> (1 + 1 / 2 ^ 24) * rat_of_nat n"
proof -
  have "(1 - 1 / 2 ^ 24) * rat_of_nat n \<le> f32_of_nat n \<and>
        f32_of_nat n \<le> (1 + 1 / 2 ^ 24) * rat_of_nat n"
  proof (cases "n = 0")
    case True
    then show ?thesis by (simp add: f32_of_nat_def)
  next
    case False
    then have "0 < rat_of_nat n" by simp
    from f32_round_error [OF this] have
      "f32_round (rat_of_nat n) - rat_of_nat n \<le> rat_of_nat n / 2 ^ 24"
      "rat_of_nat n - f32_round (rat_of_nat n) \<le> rat_of_nat n / 2 ^ 24"
      by (simp_all only: abs_le_iff minus_diff_eq)
    then show ?thesis
      unfolding f32_of_nat_def by (simp add: algebra_simps)
  qed
  then show "(1 - 1 / 2 ^ 24) * rat_of_nat n \<le> f32_of_nat n"
    "f32_of_nat n \<le> (1 + 1 / 2 ^ 24) * rat_of_nat n"
    by simp_all
qed

lemma capacity_ratio:
  assumes "j \<in> {4..29}"
  shows "19 * capacity j \<le> 10 * capacity (j + 1)" "31 \<le> capacity (j + 1)"
    "5 \<le> j \<Longrightarrow> 61 \<le> capacity (j + 1)"
proof -
  have "list_all (\<lambda>j. 19 * capacity j \<le> 10 * capacity (j + 1) \<and> 31 \<le> capacity (j + 1) \<and>
          (5 \<le> j \<longrightarrow> 61 \<le> capacity (j + 1))) [4..<30]"
    by (simp add: capacity_def delta_def)
  then have "\<forall>j\<in>set [4..<30]. 19 * capacity j \<le> 10 * capacity (j + 1) \<and> 31 \<le> capacity (j + 1) \<and>
          (5 \<le> j \<longrightarrow> 61 \<le> capacity (j + 1))"
    by (simp only: Ball_set)
  moreover from assms have "j \<in> set [4..<30]"
    by (simp only: set_upt atLeastLessThan_iff) simp
  ultimately have *: "19 * capacity j \<le> 10 * capacity (j + 1) \<and> 31 \<le> capacity (j + 1) \<and>
          (5 \<le> j \<longrightarrow> 61 \<le> capacity (j + 1))"
    by (rule bspec)
  then show "19 * capacity j \<le> 10 * capacity (j + 1)" "31 \<le> capacity (j + 1)"
    "5 \<le> j \<Longrightarrow> 61 \<le> capacity (j + 1)"
    by simp_all
qed

lemma growth_ratio:
  assumes "j \<in> {4..29}"
  shows "f32_of_nat (n + 1) / f32_of_nat (capacity (j + 1)) \<le> 2 / 61 \<or>
         f32_of_nat (n + 1) / f32_of_nat (capacity (j + 1)) \<le> f32_of_nat n / f32_of_nat (capacity j)"
proof -
  let ?s = "capacity j" and ?s' = "capacity (j + 1)"
  note r = capacity_ratio [OF assms]
  have "0 < ?s" using assms by (intro capacity_pos) auto
  then have Ns: "0 < f32_of_nat ?s" by (rule f32_of_nat_pos)
  have "0 < ?s'" using r(2) by simp
  then have Ns': "0 < f32_of_nat ?s'" by (rule f32_of_nat_pos)
  consider "n \<le> 1" "5 \<le> j" | "n = 0" "j = 4" | "n = 1" "j = 4" | "2 \<le> n"
    using assms by force
  then show ?thesis
  proof cases
    case 1
    have "f32_of_nat (n + 1) \<le> f32_of_nat 2"
      using 1(1) by (intro f32_of_nat_mono) simp
    then have a: "f32_of_nat (n + 1) \<le> 2"
      by (simp add: f32_of_nat_small)
    have "f32_of_nat 61 \<le> f32_of_nat ?s'"
      using r(3) [OF 1(2)] by (rule f32_of_nat_mono)
    then have b: "61 \<le> f32_of_nat ?s'"
      by (simp add: f32_of_nat_small)
    from frac_le [OF _ a _ b] show ?thesis by simp
  next
    case 2
    then show ?thesis
      by (simp add: capacity_def delta_def f32_of_nat_small)
  next
    case 3
    then show ?thesis
      by (simp add: capacity_def delta_def f32_of_nat_small)
  next
    case 4
    define u :: rat where "u = 1 / 2 ^ 24"
    define X where "X = rat_of_nat (n + 1)"
    define Y where "Y = rat_of_nat n"
    define S where "S = rat_of_nat ?s"
    define S' where "S' = rat_of_nat ?s'"
    have nonneg: "0 \<le> X" "0 \<le> Y" "0 \<le> S" "0 \<le> S'"
      by (simp_all add: X_def Y_def S_def S'_def)
    have u: "0 \<le> 1 - u" "0 \<le> 1 + u" "(1 + u) * (1 + u) * 15 \<le> (1 - u) * (1 - u) * 19"
      by (simp_all add: u_def)
    have "rat_of_nat (2 * (n + 1)) \<le> rat_of_nat (3 * n)"
      using 4 by (simp only: of_nat_le_iff) simp
    then have XY: "2 * X \<le> 3 * Y"
      by (simp add: X_def Y_def)
    have "rat_of_nat (19 * ?s) \<le> rat_of_nat (10 * ?s')"
      using r(1) by (simp only: of_nat_le_iff)
    then have SS: "19 * S \<le> 10 * S'"
      by (simp add: S_def S'_def)
    have "(2 * X) * (19 * S) \<le> (3 * Y) * (10 * S')"
      by (rule mult_mono) (use XY SS nonneg in simp_all)
    then have XS: "19 * (X * S) \<le> 15 * (Y * S')"
      by (simp add: ac_simps)
    have "f32_of_nat (n + 1) * f32_of_nat ?s \<le> ((1 + u) * X) * ((1 + u) * S)"
      unfolding u_def X_def S_def
      by (rule mult_mono) (use f32_of_nat_bounds(2) [of "n + 1"] f32_of_nat_bounds(2) [of ?s] u(2) nonneg Ns in simp_all)
    also have "\<dots> = (1 + u) * (1 + u) * (X * S)"
      by (simp add: ac_simps)
    finally have 1: "19 * (f32_of_nat (n + 1) * f32_of_nat ?s) \<le> (1 + u) * (1 + u) * (19 * (X * S))"
      by simp
    have "(1 + u) * (1 + u) * (19 * (X * S)) \<le> (1 + u) * (1 + u) * (15 * (Y * S'))"
      by (rule mult_left_mono) (use XS u(2) in simp_all)
    also have "\<dots> = ((1 + u) * (1 + u) * 15) * (Y * S')"
      by (simp add: ac_simps)
    also have "\<dots> \<le> ((1 - u) * (1 - u) * 19) * (Y * S')"
      by (rule mult_right_mono) (use u(3) nonneg in simp_all)
    also have "\<dots> = 19 * (((1 - u) * Y) * ((1 - u) * S'))"
      by (simp add: ac_simps)
    also have "\<dots> \<le> 19 * (f32_of_nat n * f32_of_nat ?s')"
    proof -
      have "((1 - u) * Y) * ((1 - u) * S') \<le> f32_of_nat n * f32_of_nat ?s'"
        unfolding u_def Y_def S'_def
        by (rule mult_mono) (use f32_of_nat_bounds(1) [of n] f32_of_nat_bounds(1) [of ?s'] u(1) nonneg in simp_all)
      then show ?thesis by simp
    qed
    finally have "19 * (f32_of_nat (n + 1) * f32_of_nat ?s) \<le> 19 * (f32_of_nat n * f32_of_nat ?s')"
      using 1 by simp
    then have "f32_of_nat (n + 1) * f32_of_nat ?s \<le> f32_of_nat n * f32_of_nat ?s'"
      by simp
    with Ns Ns' have "f32_of_nat (n + 1) / f32_of_nat ?s' \<le> f32_of_nat n / f32_of_nat ?s"
      by (simp add: field_simps)
    then show ?thesis ..
  qed
qed

lemma ht_insert_load:
  assumes "ht_shape ht" "ht_insert (Some ht) (Some k) (Some v) a = Some (r, Some ht', a')"
    and "0 < a'" "f32_div (f32_of_nat 2) (f32_of_nat 61) \<le> max_loadfactor ht"
    and "load_factor ht \<le> max_loadfactor ht"
  shows "load_factor ht' \<le> max_loadfactor ht'"
proof -
  let ?L = "max_loadfactor ht" and ?n = "num_entries ht" and ?s = "size_ht ht"
  from ht_insert_shape [OF assms(1,2)] assms(3) have
    sh: "ht_shape ht'" and L: "max_loadfactor ht' = ?L"
    and gr: "grows ht \<Longrightarrow> \<exists>j\<in>{4..29}. ?s = capacity j \<and> size_ht ht' = capacity (j + 1)"
    and ng: "\<not> grows ht \<Longrightarrow> size_ht ht' = ?s"
    and n: "num_entries ht' = ?n \<or> num_entries ht' = (?n + 1) mod 2 ^ 32"
    by auto
  have pos: "0 < ?s" "0 < size_ht ht'"
    using assms(1) sh by (auto simp: ht_shape_def capacity_pos)
  have "load_factor ht' \<le> ?L"
  proof (cases "grows ht")
    case False
    with f32_of_nat_pos [OF pos(1)] have
      "f32_div (f32_of_nat ((?n + 1) mod 2 ^ 32)) (f32_of_nat ?s) \<le> ?L"
      by (simp add: grows_def f32_quotient_gt_def not_less)
    with n assms(5) ng [OF False] show ?thesis
      by (auto simp: load_factor_def)
  next
    case True
    from gr [OF True] obtain j where j: "j \<in> {4..29}" "?s = capacity j"
      "size_ht ht' = capacity (j + 1)"
      by auto
    let ?s' = "size_ht ht'"
    have "(?n + 1) mod 2 ^ 32 \<le> ?n + 1" by simp
    with n have "num_entries ht' \<le> ?n + 1" by auto
    then have "f32_of_nat (num_entries ht') \<le> f32_of_nat (?n + 1)"
      by (rule f32_of_nat_mono)
    moreover have N0: "0 \<le> f32_of_nat (num_entries ht')"
      by (simp add: f32_of_nat_def f32_round_mono [of 0, simplified])
    moreover note Ns' = f32_of_nat_pos [OF pos(2)]
    ultimately have
      "0 \<le> f32_of_nat (num_entries ht') / f32_of_nat ?s'"
      "f32_of_nat (num_entries ht') / f32_of_nat ?s' \<le> f32_of_nat (?n + 1) / f32_of_nat ?s'"
      by (simp_all add: divide_right_mono)
    then have 1: "load_factor ht' \<le> f32_round (f32_of_nat (?n + 1) / f32_of_nat ?s')"
      unfolding load_factor_def f32_div_def by (rule f32_round_mono)
    have q0: "0 \<le> f32_of_nat (?n + 1) / f32_of_nat ?s'"
      using Ns' f32_of_nat_pos [of "?n + 1"] by simp
    from growth_ratio [OF j(1), of ?n] have
      "f32_of_nat (?n + 1) / f32_of_nat ?s' \<le> 2 / 61 \<or>
       f32_of_nat (?n + 1) / f32_of_nat ?s' \<le> f32_of_nat ?n / f32_of_nat ?s"
      by (simp only: j(2,3))
    then have "f32_round (f32_of_nat (?n + 1) / f32_of_nat ?s') \<le> ?L"
    proof
      assume "f32_of_nat (?n + 1) / f32_of_nat ?s' \<le> 2 / 61"
      from f32_round_mono [OF q0 this] have
        "f32_round (f32_of_nat (?n + 1) / f32_of_nat ?s') \<le> f32_div (f32_of_nat 2) (f32_of_nat 61)"
        by (simp add: f32_div_def f32_of_nat_small)
      with assms(4) show ?thesis by simp
    next
      assume "f32_of_nat (?n + 1) / f32_of_nat ?s' \<le> f32_of_nat ?n / f32_of_nat ?s"
      from f32_round_mono [OF q0 this] assms(5) show ?thesis
        by (simp add: load_factor_def f32_div_def)
    qed
    with 1 show ?thesis by simp
  qed
  with L show ?thesis by simp
qed

subsection \<open>Sequences of insertions\<close>

lemma ht_inserts_append:
  "ht_inserts ht (xs @ ys) a =
     (case ht_inserts ht xs a of
        None \<Rightarrow> None
      | Some (rs1, ht1, a1) \<Rightarrow>
          (case ht_inserts ht1 ys a1 of
             None \<Rightarrow> None
           | Some (rs2, ht2, a2) \<Rightarrow> Some (rs1 @ rs2, ht2, a2)))"
  by (induction xs arbitrary: ht a) (auto split: option.splits)

lemma ht_inserts_shape:
  assumes "ht_shape ht" "ht_inserts ht kvs a = Some (rs, ht', a')"
  shows "ht_shape ht' \<and> max_loadfactor ht' = max_loadfactor ht \<and> hash ht' = hash ht \<and>
         cmp ht' = cmp ht \<and> a' \<le> a \<and> size_ht ht \<le> size_ht ht' \<and> length rs = length kvs"
  using assms
proof (induction kvs arbitrary: ht a rs)
  case Nil
  then show ?case by simp
next
  case (Cons kv kvs)
  from Cons.prems(2) obtain r ht1 a1 rs1 where
    step: "ht_insert (Some ht) (Some (fst kv)) (Some (snd kv)) a = Some (r, Some ht1, a1)"
    and rest: "ht_inserts ht1 kvs a1 = Some (rs1, ht', a')" and rs: "rs = r # rs1"
    by (auto split: option.splits)
  from ht_insert_shape [OF Cons.prems(1) step] have
    1: "ht_shape ht1" "max_loadfactor ht1 = max_loadfactor ht" "hash ht1 = hash ht"
      "cmp ht1 = cmp ht" "a1 \<le> a" "size_ht ht \<le> size_ht ht1"
    by auto
  from Cons.IH [OF 1(1) rest] 1 rs show ?case
    by simp
qed

lemma ht_inserts_load:
  assumes "ht_shape ht" "ht_inserts ht kvs a = Some (rs, ht', a')" "0 < a'"
    and "f32_div (f32_of_nat 2) (f32_of_nat 61) \<le> max_loadfactor ht"
    and "load_factor ht \<le> max_loadfactor ht"
  shows "load_factor ht' \<le> max_loadfactor ht'"
  using assms
proof (induction kvs arbitrary: ht a rs)
  case Nil
  then show ?case by simp
next
  case (Cons kv kvs)
  from Cons.prems(2) obtain r ht1 a1 rs1 where
    step: "ht_insert (Some ht) (Some (fst kv)) (Some (snd kv)) a = Some (r, Some ht1, a1)"
    and rest: "ht_inserts ht1 kvs a1 = Some (rs1, ht', a')"
    by (auto split: option.splits)
  from ht_insert_shape [OF Cons.prems(1) step] have
    1: "ht_shape ht1" "max_loadfactor ht1 = max_loadfactor ht"
    by auto
  from ht_inserts_shape [OF 1(1) rest] Cons.prems(3) have a1: "0 < a1"
    by simp
  from ht_insert_load [OF Cons.prems(1) step a1 Cons.prems(4,5)] 1 Cons.prems(4) rest Cons.prems(3)
  show ?case
    by (intro Cons.IH [of ht1 a1 rs1]) simp_all
qed

lemma ht_inserts_inv:
  assumes "ht_inv ht" "ht_inserts ht kvs a = Some (rs, ht', a')"
  shows "ht_inv ht'"
  using assms
proof (induction kvs arbitrary: ht a rs)
  case Nil
  then show ?case by simp
next
  case (Cons kv kvs)
  from Cons.prems(2) obtain r ht1 a1 rs1 where
    step: "ht_insert (Some ht) (Some (fst kv)) (Some (snd kv)) a = Some (r, Some ht1, a1)"
    and rest: "ht_inserts ht1 kvs a1 = Some (rs1, ht', a')"
    by (auto split: option.splits)
  from ht_insert_result [OF Cons.prems(1) step] have "ht_inv ht1"
    by auto
  from Cons.IH [OF this rest] show ?case .
qed

lemma ht_inserts_distinct:
  assumes "ht_inv ht" "ht_inserts ht kvs a = Some (rs, ht', a')" "0 < a'"
    and "keys_distinct (cmp ht) (kvs @ entries ht)" and "num_entries ht < 2 ^ 32"
  shows "mset (entries ht') = mset kvs + mset (entries ht) \<and>
         rs = replicate (length kvs) EXIT_SUCCESS \<and>
         num_entries ht' = (num_entries ht + length kvs) mod 2 ^ 32"
  using assms
proof (induction kvs arbitrary: ht a rs)
  case Nil
  then show ?case by simp
next
  case (Cons kv kvs)
  obtain k v where kv: "kv = (k, v)" by (cases kv)
  from Cons.prems(2) obtain r ht1 a1 rs1 where
    step: "ht_insert (Some ht) (Some k) (Some v) a = Some (r, Some ht1, a1)"
    and rest: "ht_inserts ht1 kvs a1 = Some (rs1, ht', a')" and rs: "rs = r # rs1"
    by (auto simp: kv split: option.splits)
  from ht_insert_result [OF Cons.prems(1) step] have inv1: "ht_inv ht1"
    and cmp1: "cmp ht1 = cmp ht"
    and cases: "(r = EXIT_FAILURE \<and> a = 0) \<or>
      (r = HASH_TABLE_KEY_VALUE_PAIR_EXISTS \<and> (\<exists>e\<in>set (entries ht). cmp ht k (fst e) = 0)) \<or>
      (r = EXIT_SUCCESS \<and> mset (entries ht1) = add_mset (k, v) (mset (entries ht)) \<and>
         num_entries ht1 = (num_entries ht + 1) mod 2 ^ 32)"
    and a1: "a1 \<le> a"
    by auto
  have "ht_shape ht1" using inv1 by (simp add: ht_inv_def)
  from ht_inserts_shape [OF this rest] Cons.prems(3) a1 have "0 < a"
    by simp
  moreover have "cmp ht k (fst e) \<noteq> 0" if "e \<in> set (entries ht)" for e
  proof -
    from Cons.prems(4) that have "(k, v) \<noteq> e"
      by (auto simp: kv keys_distinct_def)
    with Cons.prems(4) that show ?thesis
      unfolding kv keys_distinct_def
      by (metis Un_iff fst_conv list.set_intros(1) set_append)
  qed
  ultimately have ok: "r = EXIT_SUCCESS"
    "mset (entries ht1) = add_mset (k, v) (mset (entries ht))"
    "num_entries ht1 = (num_entries ht + 1) mod 2 ^ 32"
    using cases by auto
  have "mset (kvs @ entries ht1) = mset (kv # kvs @ entries ht)"
    using ok(2) by (simp add: kv)
  with Cons.prems(4) have "keys_distinct (cmp ht1) (kvs @ entries ht1)"
    using keys_distinct_mset [of "kvs @ entries ht1" "kv # kvs @ entries ht" "cmp ht"] cmp1
    by simp
  moreover have "num_entries ht1 < 2 ^ 32"
    using ok(3) by simp
  ultimately show ?case
    using Cons.IH [OF inv1 rest Cons.prems(3)] ok rs
    by (simp add: kv mod_simps)
qed

lemma strcmp_eq_0_iff: "strcmp x y = 0 \<longleftrightarrow> x = y"
proof (induction x y rule: strcmp.induct)
  case (4 x xs y ys)
  have "int (of_char x) - int (of_char y) = 0 \<longleftrightarrow> x = y"
    by simp
  with 4 show ?case by auto
qed simp_all

lemma consistent_shift_hash: "consistent shift_hash key_strcmp"
  by (simp add: consistent_def key_strcmp_def strcmp_eq_0_iff shift_hash_def)

lemma keys_distinct_strcmp:
  "keys_distinct key_strcmp kvs \<longleftrightarrow> distinct kvs \<and> (\<forall>e\<in>set kvs. \<forall>e'\<in>set kvs. e \<noteq> e' \<longrightarrow> fst e \<noteq> fst e')"
  by (simp add: keys_distinct_def key_strcmp_def strcmp_eq_0_iff)

lemma ht_insert_defined:
  assumes "ht_inv ht" "size_ht ht \<le> 2 ^ 29"
  shows "ht_insert (Some ht) (Some k) (Some v) a \<noteq> None"
proof (cases "a = 0")
  case True
  then show ?thesis by (simp add: ht_insert_unfold)
next
  case False
  have "2 ^ (30 - 1) < capacity 30"
    by (intro capacity_bounds(1)) auto
  with assms(2) have ne: "size_ht ht \<noteq> capacity 30" by simp
  from assms(1) have sh: "ht_shape ht" "\<forall>q n. 0 < n \<longrightarrow> hash ht q n < n"
    by (auto simp: ht_inv_def consistent_range)
  have "(if grows ht then rehash ht (a - 1) else Some (ht, a - 1)) \<noteq> None"
    using rehash_defined [OF sh(1) ne sh(2)] by simp
  then obtain ht1 a2 where
    g: "(if grows ht then rehash ht (a - 1) else Some (ht, a - 1)) = Some (ht1, a2)"
    by auto
  from grow_step(1) [OF assms(1) g] have "ht_shape ht1" "\<forall>q n. 0 < n \<longrightarrow> hash ht1 q n < n"
    by (auto simp: ht_inv_def consistent_range)
  from ht_shape_index(2) [OF this, of k] g False show ?thesis
    by (simp add: ht_insert_unfold)
qed

lemma search_present:
  assumes "ht_inv ht" "(k, v) \<in> set (entries ht)" "cmp ht q k = 0"
  shows "ht_search (Some ht) (Some q) = Some (Some v)"
  using assms chain_search_unique [of "hash ht" "cmp ht" "entries ht" k v q]
  by (simp add: ht_search_entries ht_inv_def)

text \<open>
  C5. A table is created and a list of pairs with distinct keys is inserted, with no
  allocation failure. Then every insertion succeeded, every inserted key is found with
  its value, whatever growths the insertions forced, and the counter is the number of
  pairs. A further \<open>rehash\<close> changes neither the counter nor the stored entries, and
  every key is still found with its value.
\<close>

theorem growth_preserves_entries:
  assumes "consistent h c"
    and "ht_init L h c a = (Some ht0, a0)"
    and "ht_inserts ht0 kvs a0 = Some (rs, ht, a1)"
    and "0 < a1"
    and "keys_distinct c kvs"
  shows "(\<forall>kv\<in>set kvs. ht_search (Some ht) (Some (fst kv)) = Some (Some (snd kv))) \<and>
         rs = replicate (length kvs) EXIT_SUCCESS \<and>
         num_entries ht = length kvs mod 2 ^ 32 \<and>
         mset (entries ht) = mset kvs \<and>
         (\<forall>ht' b b'. rehash ht b = Some (ht', b') \<longrightarrow>
            num_entries ht' = num_entries ht \<and> mset (entries ht') = mset (entries ht) \<and>
            (\<forall>kv\<in>set kvs. ht_search (Some ht') (Some (fst kv)) = Some (Some (snd kv))))"
proof -
  note init = ht_init_result [OF assms(2)]
  have inv0: "ht_inv ht0"
    using assms(1,2) by (rule ht_init_inv [rotated])
  have inv: "ht_inv ht"
    using inv0 assms(3) by (rule ht_inserts_inv)
  have c: "cmp ht = c" "hash ht = h"
    using ht_inserts_shape [OF init(1) assms(3)] init by simp_all
  from ht_inserts_distinct [OF inv0 assms(3,4)] assms(5) init
  have run: "mset (entries ht) = mset kvs" "rs = replicate (length kvs) EXIT_SUCCESS"
    "num_entries ht = length kvs mod 2 ^ 32"
    by simp_all
  have refl: "c k k = 0" for k
    using assms(1) by (rule consistent_refl)
  have found: "\<forall>kv\<in>set kvs. ht_search (Some t) (Some (fst kv)) = Some (Some (snd kv))"
    if "ht_inv t" "mset (entries t) = mset kvs" "cmp t = c" for t
  proof
    fix kv assume "kv \<in> set kvs"
    with that(2) have "(fst kv, snd kv) \<in> set (entries t)"
      using mset_eq_setD by fastforce
    with that(1,3) show "ht_search (Some t) (Some (fst kv)) = Some (Some (snd kv))"
      by (intro search_present [where k = "fst kv"]) (simp_all add: refl)
  qed
  have "num_entries ht' = num_entries ht \<and> mset (entries ht') = mset (entries ht) \<and>
        (\<forall>kv\<in>set kvs. ht_search (Some ht') (Some (fst kv)) = Some (Some (snd kv)))"
    if r: "rehash ht b = Some (ht', b')" for ht' b b'
  proof -
    have sh: "ht_shape ht" using inv by (simp add: ht_inv_def)
    note rr = rehash_result(1-6) [OF sh r]
    have "ht_inv ht'"
      using rr inv keys_distinct_mset [OF rr(6), of "cmp ht"] by (simp add: ht_inv_def)
    with rr run(1) c found [of ht'] show ?thesis by simp
  qed
  with found [OF inv run(1) c(1)] run show ?thesis
    by blast
qed

lemma built_table_inv:
  assumes "consistent h c" "ht_init L h c a = (Some ht0, a0)"
    "ht_inserts ht0 kvs a0 = Some (rs, ht, a1)"
  shows "ht_inv ht" "cmp ht = c" "hash ht = h" "max_loadfactor ht = L"
proof -
  note init = ht_init_result [OF assms(2)]
  have "ht_inv ht0"
    using assms(1,2) by (rule ht_init_inv [rotated])
  then show "ht_inv ht"
    using assms(3) by (rule ht_inserts_inv)
  show "cmp ht = c" "hash ht = h" "max_loadfactor ht = L"
    using ht_inserts_shape [OF init(1) assms(3)] init by simp_all
qed

lemma search_Some_entry:
  assumes "ht_inv ht" "ht_search (Some ht) (Some q) = Some (Some v)"
  shows "\<exists>k. (k, v) \<in> set (entries ht) \<and> cmp ht q k = 0"
  using assms by (auto simp: ht_search_entries dest: chain_search_SomeD)

lemma consistent_trans: "consistent h c \<Longrightarrow> c a b = 0 \<Longrightarrow> c b d = 0 \<Longrightarrow> c a d = 0"
  unfolding consistent_def by blast

text \<open>
  C6. In a table built by \<open>ht_init\<close> and \<open>ht_insert\<close> calls, inserting a key that
  compares equal to a key already present, with memory for the new entry, returns
  \<open>HASH_TABLE_KEY_VALUE_PAIR_EXISTS\<close>; the old value is kept, and a search for either key
  returns it. The return code differs from \<open>EXIT_SUCCESS\<close> and from \<open>EXIT_FAILURE\<close>,
  which is what a call with a null table, key or value returns. (The bound on the size
  keeps the \<open>int\<close> arithmetic of \<open>getsize\<close> from overflowing.)
\<close>

theorem ht_insert_existing_key:
  assumes "consistent h c"
    and "ht_init L h c a = (Some ht0, a0)"
    and "ht_inserts ht0 kvs a0 = Some (rs, ht, a1)"
    and "ht_search (Some ht) (Some k) = Some (Some v0)"
    and "c k' k = 0"
    and "0 < b"
    and "size_ht ht \<le> 2 ^ 29"
  shows "(\<exists>ht' b'. ht_insert (Some ht) (Some k') (Some v') b =
              Some (HASH_TABLE_KEY_VALUE_PAIR_EXISTS, Some ht', b') \<and>
            ht_search (Some ht') (Some k) = Some (Some v0) \<and>
            ht_search (Some ht') (Some k') = Some (Some v0) \<and>
            num_entries ht' = num_entries ht \<and> mset (entries ht') = mset (entries ht)) \<and>
         HASH_TABLE_KEY_VALUE_PAIR_EXISTS \<noteq> EXIT_SUCCESS \<and>
         HASH_TABLE_KEY_VALUE_PAIR_EXISTS \<noteq> EXIT_FAILURE \<and>
         ht_insert None (Some k') (Some v') b = Some (EXIT_FAILURE, None, b) \<and>
         ht_insert (Some ht) None (Some v') b = Some (EXIT_FAILURE, Some ht, b) \<and>
         ht_insert (Some ht) (Some k') None b = Some (EXIT_FAILURE, Some ht, b)"
proof -
  note t = built_table_inv [OF assms(1-3)]
  from search_Some_entry [OF t(1) assms(4)] t(2) obtain k0 where
    k0: "(k0, v0) \<in> set (entries ht)" "c k k0 = 0"
    by auto
  with assms(1,5) have k'0: "c k' k0 = 0"
    by (blast intro: consistent_trans)
  from ht_insert_defined [OF t(1) assms(7), of k' v' b] obtain r htp b' where
    ins: "ht_insert (Some ht) (Some k') (Some v') b = Some (r, htp, b')"
    by (metis not_None_eq prod_cases3)
  from ht_insert_result [OF t(1) ins] assms(6) k0(1) k'0 t(2) obtain ht' where
    res: "htp = Some ht'" "ht_inv ht'" "cmp ht' = c" "r = HASH_TABLE_KEY_VALUE_PAIR_EXISTS"
      "mset (entries ht') = mset (entries ht)" "num_entries ht' = num_entries ht"
    by (auto simp: return_codes_distinct)
  from res(5) k0(1) have "(k0, v0) \<in> set (entries ht')"
    using mset_eq_setD by blast
  with res(2,3) k0(2) k'0
  have "ht_search (Some ht') (Some k) = Some (Some v0)"
    "ht_search (Some ht') (Some k') = Some (Some v0)"
    by (auto intro: search_present)
  with ins res show ?thesis
    by (simp add: return_codes_distinct [symmetric])
       (simp add: ht_insert_def)
qed

lemma duplicate_insert_unchanged:
  assumes "consistent h c"
    and "ht_init L h c a = (Some ht0, a0)"
    and "ht_inserts ht0 kvs a0 = Some (rs, ht, a1)"
    and "ht_search (Some ht) (Some k) = Some (Some v0)"
    and "c k' k = 0"
    and "ht_insert (Some ht) (Some k') (Some v') b = Some (r, htp, b')"
  shows "\<exists>ht'. htp = Some ht' \<and> num_entries ht' = num_entries ht \<and>
           mset (entries ht') = mset (entries ht) \<and> size_ht ht \<le> size_ht ht' \<and>
           r \<noteq> EXIT_SUCCESS"
proof -
  note t = built_table_inv [OF assms(1-3)]
  from search_Some_entry [OF t(1) assms(4)] t(2) obtain k0 where
    k0: "(k0, v0) \<in> set (entries ht)" "c k k0 = 0"
    by auto
  with assms(1,5) have k'0: "c k' k0 = 0"
    by (blast intro: consistent_trans)
  from ht_insert_result [OF t(1) assms(6)] k0(1) k'0 t(2) show ?thesis
    by (auto simp: return_codes_distinct return_codes_distinct [symmetric])
qed

lemma load_threshold: "f32_div (f32_of_nat 2) (f32_of_nat 61) = 4400581 / 134217728"
  by (simp add: f32_eval)

text \<open>
  C4, with the load factor read as the code computes it and for a maximum load factor of
  at least \<open>2 / 61\<close> rounded to single precision, which is \<open>4400581 / 2 ^ 27\<close> (the
  symbol table uses \<open>3 / 4\<close>). A table is created and any list of pairs is inserted, with
  no allocation failure. Then after each insertion the quotient of \<open>(float) num_entries\<close>
  and \<open>(float) size\<close>, in single precision, is at most the maximum load factor, and every
  entry sits in the bucket its key hashes to under the size the table has then: the growth
  comes before the bucket of the new entry is computed. \<open>ht_insert\<close> grows the table once
  at most, which is why the bound on the maximum load factor is needed.
\<close>

theorem load_factor_bounded:
  assumes "ht_init L h c a = (Some ht0, a0)"
    and "ht_inserts ht0 kvs a0 = Some (rs, ht, a1)"
    and "0 < a1"
    and "f32_div (f32_of_nat 2) (f32_of_nat 61) \<le> L"
  shows "\<forall>m\<in>{..length kvs}. \<exists>rs' ht' a'.
           ht_inserts ht0 (take m kvs) a0 = Some (rs', ht', a') \<and>
           load_factor ht' \<le> max_loadfactor ht' \<and>
           max_loadfactor ht' = L \<and>
           (\<forall>i\<in>{..<size_ht ht'}. \<forall>e\<in>set (table ht' ! i). h (fst e) (size_ht ht') = i)"
proof
  fix m assume "m \<in> {..length kvs}"
  note init = ht_init_result [OF assms(1)]
  have "ht_inserts ht0 (take m kvs @ drop m kvs) a0 = Some (rs, ht, a1)"
    using assms(2) by simp
  then obtain rs' ht' a' rs2 where
    pre: "ht_inserts ht0 (take m kvs) a0 = Some (rs', ht', a')"
    and post: "ht_inserts ht' (drop m kvs) a' = Some (rs2, ht, a1)"
    unfolding ht_inserts_append by (auto split: option.splits)
  note sh = ht_inserts_shape [OF init(1) pre]
  from sh have sh': "ht_shape ht'" by simp
  from ht_inserts_shape [OF sh' post] assms(3) have a': "0 < a'"
    by simp
  have "load_factor ht0 = 0"
    by (simp add: load_factor_def init f32_of_nat_def f32_div_def)
  moreover have "0 \<le> L"
    using assms(4) by (simp add: load_threshold)
  ultimately have load: "load_factor ht' \<le> max_loadfactor ht'"
    using init assms(4) by (intro ht_inserts_load [OF init(1) pre a']) simp_all
  have "buckets_ok h (size_ht ht') (live ht')" and le: "size_ht ht' \<le> length (table ht')"
    using sh init(6) by (auto simp: ht_shape_def)
  then have "\<forall>i\<in>{..<length (live ht')}. \<forall>e\<in>set (live ht' ! i). h (fst e) (size_ht ht') = i"
    by (simp only: buckets_ok_def)
  moreover have "length (live ht') = size_ht ht'"
    using le by (simp add: live_def)
  moreover have "live ht' ! i = table ht' ! i" if "i < size_ht ht'" for i
    using that by (simp add: live_def)
  ultimately have "\<forall>i\<in>{..<size_ht ht'}. \<forall>e\<in>set (table ht' ! i). h (fst e) (size_ht ht') = i"
    by simp
  with pre load sh init(5)
  show "\<exists>rs' ht' a'.
          ht_inserts ht0 (take m kvs) a0 = Some (rs', ht', a') \<and>
          load_factor ht' \<le> max_loadfactor ht' \<and>
          max_loadfactor ht' = L \<and>
          (\<forall>i\<in>{..<size_ht ht'}. \<forall>e\<in>set (table ht' ! i). h (fst e) (size_ht ht') = i)"
    by simp
qed

text \<open>
  C7, with the form \<open>2 ^ k - delta[k]\<close>. Every size a table takes, from the initial 13
  on, is \<open>capacity k\<close> for some \<open>k\<close> from 4 to 30; it is odd and not a power of two.
  Up to \<open>k = 29\<close>, \<open>getsize\<close> returns \<open>capacity (k + 1)\<close>, the least value
  of this form above the current size, and this value is the size after a growth that did
  not run out of memory. (At \<open>k = 30\<close> the \<open>int\<close> arithmetic of \<open>getsize\<close>
  overflows.)
\<close>

theorem capacity_progression:
  assumes "ht_init L h c a = (Some ht0, a0)"
    and "ht_inserts ht0 kvs a0 = Some (rs, ht, a1)"
  shows "\<exists>k\<in>{4..30}.
           size_ht ht = capacity k \<and> odd (size_ht ht) \<and> (\<forall>m. size_ht ht \<noteq> 2 ^ m) \<and>
           (k \<le> 29 \<longrightarrow>
              getsize ht = Some (int (capacity (k + 1))) \<and>
              least_above capacity (size_ht ht) (capacity (k + 1)) \<and>
              (\<forall>ht' b b'. rehash ht b = Some (ht', b') \<and> 0 < b' \<longrightarrow>
                 size_ht ht' = capacity (k + 1)))"
proof -
  note init = ht_init_result [OF assms(1)]
  from ht_inserts_shape [OF init(1) assms(2)] have sh: "ht_shape ht"
    by simp
  then obtain k where k: "k \<in> {4..30}" "size_ht ht = capacity k"
    by (auto simp: ht_shape_def)
  then have k2: "2 \<le> k" "k < 32" by auto
  have "odd (capacity k)" "\<forall>m. capacity k \<noteq> 2 ^ m"
    using capacity_bounds(3) [OF k2] capacity_not_power [OF k2] by simp_all
  moreover have "getsize ht = Some (int (capacity (k + 1)))" if "k \<le> 29"
    using k2 that k(2) by (intro getsize_capacity) auto
  moreover have "least_above capacity (capacity k) (capacity (k + 1))" if "k \<le> 29"
    using that by (intro least_above_capacity) auto
  moreover have "size_ht ht' = capacity (k + 1)"
    if "rehash ht b = Some (ht', b')" "0 < b'" for ht' b b'
  proof -
    from rehash_result(8) [OF sh that] obtain j where
      j: "j \<in> {4..29}" "size_ht ht = capacity j" "size_ht ht' = capacity (j + 1)"
      by auto
    have "j = k"
    proof (rule ccontr)
      assume "j \<noteq> k"
      then have "j < k \<or> k < j" by auto
      then have "capacity j \<noteq> capacity k"
        using capacity_mono [of j k] capacity_mono [of k j] k2 j(1) by auto
      with j(2) k(2) show False by simp
    qed
    with j(3) show ?thesis by simp
  qed
  ultimately show ?thesis
    using k by (intro bexI [of _ k]) auto
qed

lemma replicate_numeral: "replicate (numeral k) x = x # replicate (pred_numeral k) x"
  by (simp add: numeral_eq_Suc)

lemma list_update_numeral: "(x # xs)[numeral k := y] = x # xs[pred_numeral k := y]"
  by (simp add: numeral_eq_Suc)

lemmas ht_eval = replicate_numeral list_update_numeral
  ht_init_def ht_insert_def ht_search_def rehash_def getsize_def getsize_loop.simps
  malloc_def talloc_def INITIAL_DELTA_INDEX_def MAX_IDX_def delta_def INT_MAX_def Let_def
  shift_hash_def char_to_uint_def key_strcmp_def
  EXIT_SUCCESS_def EXIT_FAILURE_def HASH_TABLE_KEY_VALUE_PAIR_EXISTS_def f32_eval

lemma table0_init: "ht_init L shift_hash key_strcmp 100 = (Some (table0 L), 98)"
  by (simp add: table0_def ht_eval)

lemma keys_distinct_letters: "keys_distinct key_strcmp letters"
  by (simp add: keys_distinct_strcmp letters_def)

lemma run_letters:
  "\<exists>rs t b. ht_inserts (table0 (3 / 4)) letters 98 = Some (rs, t, b) \<and>
      size_ht t = 61 \<and> num_entries t = 24 \<and> 0 < b"
  by (simp add: table0_def letters_def ht_eval)

lemma run_letters9:
  "\<exists>rs t b. ht_inserts (table0 (3 / 4)) (take 9 letters) 98 = Some (rs, t, b) \<and>
      size_ht t = 13 \<and> num_entries t = 9 \<and>
      (\<exists>t' b'. ht_insert (Some t) (Some ''a'') (Some 99) 50 =
          Some (HASH_TABLE_KEY_VALUE_PAIR_EXISTS, Some t', b') \<and> size_ht t' = 31) \<and>
      ht_search (Some t) (Some ''a'') = Some (Some 1)"
  by (simp add: table0_def letters_def ht_eval)

theorem growth_preserves_entries_witness:
  "ht_search (Some (fst (snd (the (ht_inserts (table0 (3 / 4)) letters 98))))) (Some ''a'')
     = Some (Some 1) \<and>
   ht_search (Some (fst (snd (the (ht_inserts (table0 (3 / 4)) letters 98))))) (Some ''x'')
     = Some (Some 24) \<and>
   size_ht (fst (snd (the (ht_inserts (table0 (3 / 4)) letters 98)))) = 61 \<and>
   num_entries (fst (snd (the (ht_inserts (table0 (3 / 4)) letters 98)))) = 24"
proof -
  from run_letters obtain rs t b where
    run: "ht_inserts (table0 (3 / 4)) letters 98 = Some (rs, t, b)"
    and t: "size_ht t = 61" "num_entries t = 24" "0 < b"
    by blast
  from growth_preserves_entries
    [OF consistent_shift_hash table0_init run t(3) keys_distinct_letters]
  have "\<forall>kv\<in>set letters. ht_search (Some t) (Some (fst kv)) = Some (Some (snd kv))"
    by blast
  then have "ht_search (Some t) (Some ''a'') = Some (Some 1)"
    "ht_search (Some t) (Some ''x'') = Some (Some 24)"
    by (auto simp: letters_def)
  with run t show ?thesis by simp
qed

subsection \<open>Concrete runs\<close>

lemma run_letters3:
  "\<exists>rs t b. ht_inserts (table0 (3 / 4)) (take 3 letters) 98 = Some (rs, t, b) \<and>
      size_ht t = 13 \<and> ht_search (Some t) (Some ''b'') = Some (Some 2)"
  by (simp add: table0_def letters_def ht_eval)

theorem ht_insert_existing_key_witness:
  "map_option fst
     (ht_insert (Some (fst (snd (the (ht_inserts (table0 (3 / 4)) (take 3 letters) 98)))))
        (Some ''b'') (Some 99) 50) = Some HASH_TABLE_KEY_VALUE_PAIR_EXISTS \<and>
   ht_search
     (fst (snd (the
        (ht_insert (Some (fst (snd (the (ht_inserts (table0 (3 / 4)) (take 3 letters) 98)))))
           (Some ''b'') (Some 99) 50))))
     (Some ''b'') = Some (Some 2)"
proof -
  from run_letters3 obtain rs t b where
    run: "ht_inserts (table0 (3 / 4)) (take 3 letters) 98 = Some (rs, t, b)"
    and t: "size_ht t = 13" "ht_search (Some t) (Some ''b'') = Some (Some 2)"
    by blast
  have eq: "key_strcmp ''b'' ''b'' = 0"
    by (simp add: key_strcmp_def)
  from ht_insert_existing_key
    [OF consistent_shift_hash table0_init run t(2) eq, of 50 99] t(1)
  obtain t' b' where
    "ht_insert (Some t) (Some ''b'') (Some 99) 50 = Some (HASH_TABLE_KEY_VALUE_PAIR_EXISTS, Some t', b')"
    "ht_search (Some t') (Some ''b'') = Some (Some 2)"
    by auto
  with run show ?thesis by simp
qed

text \<open>
  C10. In a table built by \<open>ht_init\<close> and \<open>ht_insert\<close> calls, a call of \<open>ht_insert\<close>
  with a key that compares equal to a key already present does not succeed and leaves
  \<open>num_entries\<close> and the stored entries as they were; the size does not shrink. The
  size can change: in the sample table with nine keys and size 13 the load-factor test
  comes first, so that inserting the key \<open>a\<close> again returns
  \<open>HASH_TABLE_KEY_VALUE_PAIR_EXISTS\<close> and leaves a table of size 31.
\<close>

theorem duplicate_insert_frame:
  "(\<forall>(h :: 'k \<Rightarrow> nat \<Rightarrow> nat) c L a ht0 a0 kvs rs (ht :: ('k, 'v) hashtab) a1 k v0 k' v' b r htp b'.
      consistent h c \<and> ht_init L h c a = (Some ht0, a0) \<and>
      ht_inserts ht0 kvs a0 = Some (rs, ht, a1) \<and>
      ht_search (Some ht) (Some k) = Some (Some v0) \<and> c k' k = 0 \<and>
      ht_insert (Some ht) (Some k') (Some v') b = Some (r, htp, b') \<longrightarrow>
      (\<exists>ht'. htp = Some ht' \<and> num_entries ht' = num_entries ht \<and>
         mset (entries ht') = mset (entries ht) \<and> size_ht ht \<le> size_ht ht' \<and>
         r \<noteq> EXIT_SUCCESS)) \<and>
   size_ht (fst (snd (the (ht_inserts (table0 (3 / 4)) (take 9 letters) 98)))) = 13 \<and>
   ht_search (Some (fst (snd (the (ht_inserts (table0 (3 / 4)) (take 9 letters) 98)))))
     (Some ''a'') = Some (Some 1) \<and>
   map_option fst
     (ht_insert (Some (fst (snd (the (ht_inserts (table0 (3 / 4)) (take 9 letters) 98)))))
        (Some ''a'') (Some 99) 50) = Some HASH_TABLE_KEY_VALUE_PAIR_EXISTS \<and>
   size_ht (the (fst (snd (the
     (ht_insert (Some (fst (snd (the (ht_inserts (table0 (3 / 4)) (take 9 letters) 98)))))
        (Some ''a'') (Some 99) 50))))) = 31"
proof -
  from run_letters9 obtain rs t b t' b' where
    "ht_inserts (table0 (3 / 4)) (take 9 letters) 98 = Some (rs, t, b)"
    "size_ht t = 13" "ht_search (Some t) (Some ''a'') = Some (Some 1)"
    "ht_insert (Some t) (Some ''a'') (Some 99) 50 =
       Some (HASH_TABLE_KEY_VALUE_PAIR_EXISTS, Some t', b')"
    "size_ht t' = 31"
    by blast
  then have
    "size_ht (fst (snd (the (ht_inserts (table0 (3 / 4)) (take 9 letters) 98)))) = 13 \<and>
     ht_search (Some (fst (snd (the (ht_inserts (table0 (3 / 4)) (take 9 letters) 98)))))
       (Some ''a'') = Some (Some 1) \<and>
     map_option fst
       (ht_insert (Some (fst (snd (the (ht_inserts (table0 (3 / 4)) (take 9 letters) 98)))))
          (Some ''a'') (Some 99) 50) = Some HASH_TABLE_KEY_VALUE_PAIR_EXISTS \<and>
     size_ht (the (fst (snd (the
       (ht_insert (Some (fst (snd (the (ht_inserts (table0 (3 / 4)) (take 9 letters) 98)))))
          (Some ''a'') (Some 99) 50))))) = 31"
    by simp
  moreover have
    "\<forall>(h :: 'k \<Rightarrow> nat \<Rightarrow> nat) c L a ht0 a0 kvs rs (ht :: ('k, 'v) hashtab) a1 k v0 k' v' b r htp b'.
      consistent h c \<and> ht_init L h c a = (Some ht0, a0) \<and>
      ht_inserts ht0 kvs a0 = Some (rs, ht, a1) \<and>
      ht_search (Some ht) (Some k) = Some (Some v0) \<and> c k' k = 0 \<and>
      ht_insert (Some ht) (Some k') (Some v') b = Some (r, htp, b') \<longrightarrow>
      (\<exists>ht'. htp = Some ht' \<and> num_entries ht' = num_entries ht \<and>
         mset (entries ht') = mset (entries ht) \<and> size_ht ht \<le> size_ht ht' \<and>
         r \<noteq> EXIT_SUCCESS)"
  proof (intro allI impI, elim conjE)
    fix h :: "'k \<Rightarrow> nat \<Rightarrow> nat" and c L a ht0 a0 kvs rs
      and ht :: "('k, 'v) hashtab" and a1 k v0 k' v' b r htp b'
    assume "consistent h c" "ht_init L h c a = (Some ht0, a0)"
      "ht_inserts ht0 kvs a0 = Some (rs, ht, a1)"
      "ht_search (Some ht) (Some k) = Some (Some v0)" "c k' k = 0"
      "ht_insert (Some ht) (Some k') (Some v') b = Some (r, htp, b')"
    then show "\<exists>ht'. htp = Some ht' \<and> num_entries ht' = num_entries ht \<and>
         mset (entries ht') = mset (entries ht) \<and> size_ht ht \<le> size_ht ht' \<and>
         r \<noteq> EXIT_SUCCESS"
      by (rule duplicate_insert_unchanged)
  qed
  ultimately show ?thesis by (rule conjI [rotated])
qed

theorem duplicate_insert_frame_witness:
  "num_entries (the (fst (snd (the
     (ht_insert (Some (fst (snd (the (ht_inserts (table0 (3 / 4)) (take 9 letters) 98)))))
        (Some ''a'') (Some 99) 50))))) = 9 \<and>
   num_entries (fst (snd (the (ht_inserts (table0 (3 / 4)) (take 9 letters) 98)))) = 9"
proof -
  from run_letters9 obtain rs t b t' b' where
    run: "ht_inserts (table0 (3 / 4)) (take 9 letters) 98 = Some (rs, t, b)"
    and t: "num_entries t = 9" "ht_search (Some t) (Some ''a'') = Some (Some 1)"
    and ins: "ht_insert (Some t) (Some ''a'') (Some 99) 50 =
       Some (HASH_TABLE_KEY_VALUE_PAIR_EXISTS, Some t', b')"
    by blast
  have eq: "key_strcmp ''a'' ''a'' = 0"
    by (simp add: key_strcmp_def)
  from duplicate_insert_frame [THEN conjunct1, rule_format,
      of shift_hash key_strcmp "3 / 4" 100 "table0 (3 / 4)" 98 "take 9 letters" rs t b
         "''a''" 1 "''a''" 99 50 HASH_TABLE_KEY_VALUE_PAIR_EXISTS "Some t'" b']
    consistent_shift_hash table0_init [of "3 / 4"] run t(2) eq ins
  have "\<exists>ht'. Some t' = Some ht' \<and> num_entries ht' = num_entries t \<and>
         mset (entries ht') = mset (entries t) \<and> size_ht t \<le> size_ht ht' \<and>
         HASH_TABLE_KEY_VALUE_PAIR_EXISTS \<noteq> EXIT_SUCCESS"
    by simp
  then have "num_entries t' = num_entries t" by simp
  with run t(1) ins show ?thesis by simp
qed

theorem load_factor_bounded_witness:
  "load_factor (fst (snd (the (ht_inserts (table0 (3 / 4)) letters 98)))) \<le> 3 / 4 \<and>
   num_entries (fst (snd (the (ht_inserts (table0 (3 / 4)) letters 98)))) = 24 \<and>
   size_ht (fst (snd (the (ht_inserts (table0 (3 / 4)) letters 98)))) = 61"
proof -
  from run_letters obtain rs t b where
    run: "ht_inserts (table0 (3 / 4)) letters 98 = Some (rs, t, b)"
    and t: "size_ht t = 61" "num_entries t = 24" "0 < b"
    by blast
  have "f32_div (f32_of_nat 2) (f32_of_nat 61) \<le> 3 / 4"
    by (simp add: load_threshold)
  note bounded = load_factor_bounded [OF table0_init run t(3) this]
  have "length letters \<in> {..length letters}" by simp
  with bounded
  have "\<exists>rs' ht' a'.
          ht_inserts (table0 (3 / 4)) (take (length letters) letters) 98 = Some (rs', ht', a') \<and>
          load_factor ht' \<le> max_loadfactor ht' \<and>
          max_loadfactor ht' = 3 / 4 \<and>
          (\<forall>i\<in>{..<size_ht ht'}. \<forall>e\<in>set (table ht' ! i). shift_hash (fst e) (size_ht ht') = i)"
    by (rule bspec)
  then obtain rs' ht' a' where
    pre: "ht_inserts (table0 (3 / 4)) (take (length letters) letters) 98 = Some (rs', ht', a')"
    and load: "load_factor ht' \<le> max_loadfactor ht'"
    and L: "max_loadfactor ht' = 3 / 4"
    by blast
  from pre run have "ht' = t" by simp
  with load L have "load_factor t \<le> 3 / 4"
    by (simp only:)
  moreover have "fst (snd (the (ht_inserts (table0 (3 / 4)) letters 98))) = t"
    using run by simp
  ultimately show ?thesis
    using t by (simp only:)
qed

text \<open>
  C4, as the claim states it, holds of every table. It fails below the bound: a table
  created with the maximum load factor \<open>8801161 / 2 ^ 28\<close>, the single-precision
  number next below the bound, grows on each of its first two insertions, to 31 and to 61
  buckets, and two entries in 61 buckets exceed that maximum, in single precision and
  exactly. It also fails, read exactly, above the bound: with the maximum
  \<open>5412005 / 2 ^ 24\<close>, which is \<open>10 / 31\<close> rounded to single precision, the tenth
  insertion does not grow the table of 31 buckets, because the rounded quotient equals the
  maximum, and \<open>10 / 31\<close> exceeds it. All these insertions succeed and no allocation
  fails.
\<close>

theorem load_factor_counterexample:
  "fst (the (ht_inserts (table0 (8801161 / 268435456)) (take 2 letters) 98)) =
     [EXIT_SUCCESS, EXIT_SUCCESS] \<and>
   0 < snd (snd (the (ht_inserts (table0 (8801161 / 268435456)) (take 2 letters) 98))) \<and>
   num_entries (fst (snd (the (ht_inserts (table0 (8801161 / 268435456)) (take 2 letters) 98)))) = 2 \<and>
   size_ht (fst (snd (the (ht_inserts (table0 (8801161 / 268435456)) (take 2 letters) 98)))) = 61 \<and>
   \<not> load_factor (fst (snd (the (ht_inserts (table0 (8801161 / 268435456)) (take 2 letters) 98))))
       \<le> 8801161 / 268435456 \<and>
   \<not> (2::rat) / 61 \<le> 8801161 / 268435456 \<and>
   fst (the (ht_inserts (table0 (5412005 / 16777216)) (take 10 letters) 98)) =
     replicate 10 EXIT_SUCCESS \<and>
   0 < snd (snd (the (ht_inserts (table0 (5412005 / 16777216)) (take 10 letters) 98))) \<and>
   num_entries (fst (snd (the (ht_inserts (table0 (5412005 / 16777216)) (take 10 letters) 98)))) = 10 \<and>
   size_ht (fst (snd (the (ht_inserts (table0 (5412005 / 16777216)) (take 10 letters) 98)))) = 31 \<and>
   \<not> (10::rat) / 31 \<le> 5412005 / 16777216"
  by (simp add: table0_def letters_def load_factor_def ht_eval)

lemma run_letters10:
  "\<exists>rs t b. ht_inserts (table0 (3 / 4)) (take 10 letters) 98 = Some (rs, t, b) \<and>
      size_ht t = 31 \<and> getsize t = Some 61"
  by (simp add: table0_def letters_def ht_eval)

theorem capacity_progression_witness:
  "odd (size_ht (fst (snd (the (ht_inserts (table0 (3 / 4)) (take 10 letters) 98))))) \<and>
   size_ht (fst (snd (the (ht_inserts (table0 (3 / 4)) (take 10 letters) 98)))) \<noteq> 2 ^ 5 \<and>
   size_ht (fst (snd (the (ht_inserts (table0 (3 / 4)) (take 10 letters) 98)))) = 31 \<and>
   getsize (fst (snd (the (ht_inserts (table0 (3 / 4)) (take 10 letters) 98)))) = Some 61"
proof -
  from run_letters10 obtain rs t b where
    run: "ht_inserts (table0 (3 / 4)) (take 10 letters) 98 = Some (rs, t, b)"
    and t: "size_ht t = 31" "getsize t = Some 61"
    by blast
  from capacity_progression [OF table0_init run]
  have "odd (size_ht t)" "size_ht t \<noteq> 2 ^ 5"
    by blast+
  with run t show ?thesis by simp
qed

text \<open>
  C7, as the claim states it, takes the new capacity to be the least value of the form
  \<open>2 ^ (k + 1) - delta[k]\<close> above the current one. For the initial capacity 13
  \<open>getsize\<close> returns 31, which is not of that form at all, and 15 is a smaller value of
  that form above 13.
\<close>

theorem getsize_claimed_form_counterexample:
  "getsize (table0 (3 / 4)) = Some 31 \<and> size_ht (table0 (3 / 4)) = 13 \<and>
   \<not> least_above claimed_capacity 13 31 \<and>
   13 < claimed_capacity 3 \<and> claimed_capacity 3 < 31"
  by (simp add: table0_def ht_eval least_above_def claimed_capacity_def)

subsection \<open>The capacity stays small while the entries are few\<close>

lemma rehash_size:
  assumes "ht_shape ht" "rehash ht a = Some (ht', a')"
  shows "size_ht ht' = size_ht ht \<or>
         (\<exists>j\<in>{4..29}. size_ht ht = capacity j \<and> size_ht ht' = capacity (j + 1))"
proof -
  from assms(2) obtain us where us: "getsize ht = Some us"
    by (auto simp: rehash_def split: option.splits)
  from ht_shape_getsize [OF assms(1) us] obtain k where
    k: "k \<in> {4..29}" "size_ht ht = capacity k" "us = int (capacity (k + 1))"
    by auto
  from assms(2) us have "size_ht ht' = size_ht ht \<or> size_ht ht' = nat us"
    by (auto simp: rehash_def split: option.splits prod.splits bool.splits if_splits)
  with k show ?thesis by auto
qed

lemma ht_insert_size:
  assumes "ht_shape ht" "ht_insert (Some ht) (Some k) (Some v) a = Some (r, Some ht', a')"
  shows "size_ht ht' = size_ht ht \<or>
         (grows ht \<and> (\<exists>j\<in>{4..29}. size_ht ht = capacity j \<and> size_ht ht' = capacity (j + 1)))"
proof (cases "a = 0")
  case True
  with assms show ?thesis
    by (auto simp: ht_insert_unfold)
next
  case False
  with assms(2) obtain ht1 a2 where
    g: "(if grows ht then rehash ht (a - 1) else Some (ht, a - 1)) = Some (ht1, a2)"
    and s: "size_ht ht' = size_ht ht1"
    by (auto simp: ht_insert_unfold split: option.splits if_splits)
  show ?thesis
  proof (cases "grows ht")
    case True
    with g have "rehash ht (a - 1) = Some (ht1, a2)" by simp
    from rehash_size [OF assms(1) this] True s show ?thesis by simp
  next
    case False
    with g s show ?thesis by auto
  qed
qed


lemma f32_round_three_quarters: "f32_round (3 / 4) = 3 / 4"
  using f32_round_quot [of 3 4] by (simp add: f32_quot_def round_even_quot_def compute_bitlen)

lemma ht_insert_room:
  assumes "ht_shape ht" "max_loadfactor ht = 3 / 4"
    and "size_ht ht = 13 \<or> 3 * size_ht ht < 17 * (num_entries ht + 1)"
    and "num_entries ht + 1 < 2 ^ 32"
    and "ht_insert (Some ht) (Some k) (Some v) a = Some (r, Some ht', a')"
  shows "size_ht ht' = 13 \<or> 3 * size_ht ht' < 17 * (num_entries ht' + 1)"
    and "num_entries ht' \<le> num_entries ht + 1"
proof -
  let ?n = "num_entries ht" and ?s = "size_ht ht"
  from ht_insert_shape [OF assms(1,5)] assms(4) have
    n: "num_entries ht' = ?n \<or> num_entries ht' = ?n + 1"
    by auto
  then show "num_entries ht' \<le> ?n + 1" by auto
  from ht_insert_size [OF assms(1,5)] show
    "size_ht ht' = 13 \<or> 3 * size_ht ht' < 17 * (num_entries ht' + 1)"
  proof
    assume "size_ht ht' = ?s"
    with assms(3) n show ?thesis by auto
  next
    assume "grows ht \<and> (\<exists>j\<in>{4..29}. ?s = capacity j \<and> size_ht ht' = capacity (j + 1))"
    then obtain j where g: "grows ht" and j: "j \<in> {4..29}" "?s = capacity j"
      "size_ht ht' = capacity (j + 1)"
      by auto
    have "2 \<le> j" "j < 32" "2 \<le> j + 1" "j + 1 < 32"
      using j(1) by auto
    from capacity_bounds(1) [OF this(1,2)] capacity_bounds(2) [OF this(3,4)]
    have "2 ^ (j - 1) < capacity j" "capacity (j + 1) < 2 ^ (j + 1)" .
    moreover have "(2::nat) ^ (j + 1) = 4 * 2 ^ (j - 1)"
      using j(1) by (cases j) auto
    ultimately have s': "size_ht ht' < 4 * ?s"
      using j(2,3) by simp
    have "0 < ?s"
      using \<open>2 ^ (j - 1) < capacity j\<close> j(2) by simp
    then have Ns: "0 < f32_of_nat ?s" by (rule f32_of_nat_pos)
    define u :: rat where "u = 1 / 2 ^ 24"
    define X where "X = rat_of_nat (?n + 1)"
    define S where "S = rat_of_nat ?s"
    have u: "0 < 1 - u" "16 * (1 + u) \<le> 17 * (1 - u)"
      by (simp_all add: u_def)
    have X0: "0 \<le> X" by (simp add: X_def)
    from g assms(2,4) Ns have gt: "3 / 4 < f32_round (f32_of_nat (?n + 1) / f32_of_nat ?s)"
      by (simp add: grows_def f32_quotient_gt_def f32_div_def)
    have "3 / 4 < f32_of_nat (?n + 1) / f32_of_nat ?s"
    proof (rule ccontr)
      assume "\<not> 3 / 4 < f32_of_nat (?n + 1) / f32_of_nat ?s"
      then have le: "f32_of_nat (?n + 1) / f32_of_nat ?s \<le> 3 / 4" by simp
      have "0 \<le> f32_of_nat (?n + 1) / f32_of_nat ?s"
        using Ns f32_of_nat_pos [of "?n + 1"] by simp
      from f32_round_mono [OF this le] gt show False
        by (simp add: f32_round_three_quarters)
    qed
    with Ns have "3 * f32_of_nat ?s < 4 * f32_of_nat (?n + 1)"
      by (simp add: pos_less_divide_eq)
    moreover have "(1 - u) * S \<le> f32_of_nat ?s" "f32_of_nat (?n + 1) \<le> (1 + u) * X"
      using f32_of_nat_bounds(1) [of ?s] f32_of_nat_bounds(2) [of "?n + 1"]
      by (simp_all add: u_def S_def X_def)
    ultimately have "3 * ((1 - u) * S) < 4 * ((1 + u) * X)"
      by simp
    then have "4 * (3 * ((1 - u) * S)) < 4 * (4 * ((1 + u) * X))"
      by (simp only: mult_less_cancel_left_pos zero_less_numeral)
    then have "12 * ((1 - u) * S) < (16 * (1 + u)) * X"
      by (simp only: mult.assoc [symmetric])
    also have "\<dots> \<le> (17 * (1 - u)) * X"
      using u(2) X0 by (rule mult_right_mono)
    finally have "(1 - u) * (12 * S) < (1 - u) * (17 * X)"
      by (simp add: ac_simps)
    with u(1) have "12 * S < 17 * X"
      by (simp only: mult_less_cancel_left_pos)
    then have "rat_of_nat (12 * ?s) < rat_of_nat (17 * (?n + 1))"
      by (simp add: S_def X_def)
    then have "12 * ?s < 17 * (?n + 1)"
      by (simp only: of_nat_less_iff)
    with s' n show ?thesis by auto
  qed
qed

lemma ht_inserts_defined:
  assumes "ht_inv ht" "max_loadfactor ht = 3 / 4"
    and "size_ht ht = 13 \<or> 3 * size_ht ht < 17 * (num_entries ht + 1)"
    and "num_entries ht + length kvs < 2 ^ 26"
  shows "ht_inserts ht kvs a \<noteq> None"
  using assms
proof (induction kvs arbitrary: ht a)
  case Nil
  then show ?case by simp
next
  case (Cons kv kvs)
  have sh: "ht_shape ht" using Cons.prems(1) by (simp add: ht_inv_def)
  from Cons.prems(3,4) have "3 * size_ht ht < 17 * 2 ^ 26"
    by auto
  then have "size_ht ht \<le> 2 ^ 29" by simp
  from ht_insert_defined [OF Cons.prems(1) this] obtain r htp a1 where
    step0: "ht_insert (Some ht) (Some (fst kv)) (Some (snd kv)) a = Some (r, htp, a1)"
    by (metis option.exhaust prod_cases3)
  from ht_insert_shape [OF sh step0] obtain ht1 where htp: "htp = Some ht1"
    and L: "max_loadfactor ht1 = max_loadfactor ht"
    by auto
  note step = step0 [unfolded htp]
  from ht_insert_result [OF Cons.prems(1) step] have inv1: "ht_inv ht1"
    by auto
  from Cons.prems(4) have "num_entries ht + 1 < 2 ^ 32" by simp
  from ht_insert_room [OF sh Cons.prems(2,3) this step] have
    room: "size_ht ht1 = 13 \<or> 3 * size_ht ht1 < 17 * (num_entries ht1 + 1)"
    and n: "num_entries ht1 \<le> num_entries ht + 1"
    by auto
  from n Cons.prems(4) have "num_entries ht1 + length kvs < 2 ^ 26" by simp
  from Cons.IH [OF inv1 _ room this, of a1] L Cons.prems(2) step show ?case
    by auto
qed

section \<open>Offsets of variables\<close>

lemma insert_name_run:
  assumes "sym_table st = Some t"
    and "ht_insert (Some t) (Some k) (Some p) (avail st) = Some (r, Some t1, a1)"
  shows "\<exists>st1. insert_name st (Some k) (Some p) = Some (r = EXIT_SUCCESS, st1) \<and>
           sym_table st1 = Some t1 \<and> avail st1 = a1 \<and>
           saved_table st1 = saved_table st \<and>
           (\<forall>q. valtype (props st1 q) = valtype (props st q)) \<and>
           (r = EXIT_SUCCESS \<and> IS_VARIABLE (valtype (props st p)) \<longrightarrow>
              curr_offset st1 = (curr_offset st + 1) mod 2 ^ 32 \<and>
              props st1 = (props st)(p := (props st p)\<lparr>offset := curr_offset st\<rparr>)) \<and>
           (\<not> (r = EXIT_SUCCESS \<and> IS_VARIABLE (valtype (props st p))) \<longrightarrow>
              curr_offset st1 = curr_offset st \<and> props st1 = props st)"
  using assms by (simp add: insert_name_def Let_def)

lemma insert_names_run:
  assumes "sym_table st = Some t" "ht_shape t"
    and "ht_inserts t items (avail st) = Some (codes, t', a')"
  shows "\<exists>st'. symtab_calls st (insert_names items) = Some (map (\<lambda>r. r = EXIT_SUCCESS) codes, st') \<and>
           sym_table st' = Some t' \<and> avail st' = a'"
  using assms
proof (induction items arbitrary: st t codes)
  case Nil
  then show ?case by (simp add: insert_names_def)
next
  case (Cons kp items)
  from Cons.prems(3) obtain r t1 a1 rs1 where
    step: "ht_insert (Some t) (Some (fst kp)) (Some (snd kp)) (avail st) = Some (r, Some t1, a1)"
    and rest: "ht_inserts t1 items a1 = Some (rs1, t', a')" and codes: "codes = r # rs1"
    by (auto split: option.splits)
  from insert_name_run [OF Cons.prems(1) step] obtain st1 where
    st1: "insert_name st (Some (fst kp)) (Some (snd kp)) = Some (r = EXIT_SUCCESS, st1)"
      "sym_table st1 = Some t1" "avail st1 = a1"
    by blast
  from ht_insert_shape [OF Cons.prems(2) step] have "ht_shape t1" by auto
  from Cons.IH [OF st1(2) this, of rs1] rest st1(3) obtain st' where
    "symtab_calls st1 (insert_names items) = Some (map (\<lambda>r. r = EXIT_SUCCESS) rs1, st')"
    "sym_table st' = Some t'" "avail st' = a'"
    by auto
  with st1(1) codes show ?case
    by (simp add: insert_names_def)
qed

lemma insert_name_True:
  assumes "insert_name st (Some k) (Some p) = Some (True, st1)"
  shows "\<forall>q. valtype (props st1 q) = valtype (props st q)"
    and "IS_VARIABLE (valtype (props st p)) \<Longrightarrow>
           curr_offset st1 = (curr_offset st + 1) mod 2 ^ 32 \<and>
           props st1 = (props st)(p := (props st p)\<lparr>offset := curr_offset st\<rparr>)"
    and "\<not> IS_VARIABLE (valtype (props st p)) \<Longrightarrow>
           curr_offset st1 = curr_offset st \<and> props st1 = props st"
  using assms
  by (auto simp: insert_name_def Let_def split: if_splits option.splits)

lemma insert_names_offsets:
  assumes "symtab_calls st (insert_names items) = Some (rs, st')"
    and "rs = replicate (length items) True"
    and "distinct (map snd items)"
    and "curr_offset st + length items < 2 ^ 32"
  shows "curr_offset st' = curr_offset st + length (variables st items) \<and>
         map (\<lambda>kp. offset (props st' (snd kp))) (variables st items) =
           [curr_offset st ..< curr_offset st + length (variables st items)] \<and>
         (\<forall>p. p \<notin> snd ` set (variables st items) \<longrightarrow> props st' p = props st p) \<and>
         (\<forall>p. valtype (props st' p) = valtype (props st p))"
  using assms
proof (induction items arbitrary: st rs)
  case Nil
  then show ?case by (simp add: insert_names_def variables_def)
next
  case (Cons kp items)
  obtain k p where kp: "kp = (k, p)" by (cases kp)
  from Cons.prems(1,2) obtain st1 where
    step: "insert_name st (Some k) (Some p) = Some (True, st1)"
    and rest: "symtab_calls st1 (insert_names items) = Some (replicate (length items) True, st')"
    by (auto simp: insert_names_def kp split: option.splits)
  note s = insert_name_True [OF step]
  from s(1) have vars: "variables st1 items = variables st items"
    by (simp add: variables_def)
  from Cons.prems(3) have d: "distinct (map snd items)" and p: "p \<notin> snd ` set items"
    by (simp_all add: kp)
  have p': "p \<notin> snd ` set (variables st items)"
    using p by (auto simp: variables_def)
  show ?case
  proof (cases "IS_VARIABLE (valtype (props st p))")
    case True
    from s(2) [OF True] Cons.prems(4) have
      c1: "curr_offset st1 = curr_offset st + 1"
      and p1: "props st1 = (props st)(p := (props st p)\<lparr>offset := curr_offset st\<rparr>)"
      by simp_all
    from c1 Cons.prems(4) have "curr_offset st1 + length items < 2 ^ 32" by simp
    from Cons.IH [OF rest refl d this] have IH:
      "curr_offset st' = curr_offset st1 + length (variables st items)"
      "map (\<lambda>kp. offset (props st' (snd kp))) (variables st items) =
         [curr_offset st1 ..< curr_offset st1 + length (variables st items)]"
      "\<forall>q. q \<notin> snd ` set (variables st items) \<longrightarrow> props st' q = props st1 q"
      "\<forall>q. valtype (props st' q) = valtype (props st1 q)"
      by (simp_all add: vars)
    have v: "variables st (kp # items) = kp # variables st items"
      using True by (simp add: variables_def kp)
    from IH(3) p' have "props st' p = props st1 p" by simp
    then have hd: "offset (props st' p) = curr_offset st"
      by (simp add: p1)
    have "[curr_offset st ..< curr_offset st + length (variables st (kp # items))] =
          curr_offset st # [curr_offset st1 ..< curr_offset st1 + length (variables st items)]"
      by (simp add: v c1 upt_conv_Cons del: upt_Suc)
    with IH(2) hd have
      "map (\<lambda>kp. offset (props st' (snd kp))) (variables st (kp # items)) =
         [curr_offset st ..< curr_offset st + length (variables st (kp # items))]"
      unfolding v by (simp add: kp del: upt_Suc)
    moreover have "\<forall>q. q \<notin> snd ` set (variables st (kp # items)) \<longrightarrow> props st' q = props st q"
      using IH(3) unfolding v by (auto simp: kp p1)
    moreover have "curr_offset st' = curr_offset st + length (variables st (kp # items))"
      using IH(1) by (simp add: v c1)
    moreover have "\<forall>q. valtype (props st' q) = valtype (props st q)"
      using IH(4) s(1) by simp
    ultimately show ?thesis
      by (intro conjI)
  next
    case False
    from s(3) [OF False] have
      c1: "curr_offset st1 = curr_offset st" and p1: "props st1 = props st"
      by simp_all
    from c1 Cons.prems(4) have "curr_offset st1 + length items < 2 ^ 32" by simp
    from Cons.IH [OF rest refl d this] have IH:
      "curr_offset st' = curr_offset st1 + length (variables st items)"
      "map (\<lambda>kp. offset (props st' (snd kp))) (variables st items) =
         [curr_offset st1 ..< curr_offset st1 + length (variables st items)]"
      "\<forall>q. q \<notin> snd ` set (variables st items) \<longrightarrow> props st' q = props st1 q"
      "\<forall>q. valtype (props st' q) = valtype (props st1 q)"
      by (simp_all add: vars)
    have v: "variables st (kp # items) = variables st items"
      using False by (simp add: variables_def kp)
    from IH show ?thesis
      by (simp add: v c1 p1)
  qed
qed


lemma init_symbol_table_result:
  assumes "init_symbol_table st0 = Some st"
  shows "\<exists>t. sym_table st = Some t \<and> ht_inv t \<and> max_loadfactor t = 3 / 4 \<and> size_ht t = 13 \<and>
           num_entries t = 0 \<and> entries t = [] \<and> cmp t = key_strcmp"
    and "curr_offset st = 1" "props st = props st0"
proof -
  from assms obtain t a' where
    i: "ht_init (3 / 4) shift_hash key_strcmp (avail st0) = (Some t, a')"
    and st: "st = st0\<lparr>saved_table := None, sym_table := Some t, curr_offset := 1, avail := a'\<rparr>"
    by (auto simp: init_symbol_table_def split: prod.splits option.splits)
  from st show "curr_offset st = 1" "props st = props st0"
    by simp_all
  from ht_init_result [OF i] ht_init_inv [OF i consistent_shift_hash] st
  show "\<exists>t. sym_table st = Some t \<and> ht_inv t \<and> max_loadfactor t = 3 / 4 \<and> size_ht t = 13 \<and>
           num_entries t = 0 \<and> entries t = [] \<and> cmp t = key_strcmp"
    by simp
qed

lemma keys_distinct_names:
  "distinct (map fst items) \<Longrightarrow> keys_distinct key_strcmp items"
  unfolding keys_distinct_strcmp
  by (induction items) (auto simp: image_iff)

text \<open>
  C3. In a scope that \<open>init_symbol_table\<close> has just created, names that are distinct are
  inserted with \<open>insert_name\<close>, each with a property object of its own; some are variables
  and some callables, in any order. The run is defined for fewer than \<open>2 ^ 26\<close> names, and
  if no allocation failed, every call returns \<open>TRUE\<close>, the variables have the offsets
  \<open>1, 2, \<dots>, n\<close> in the order of their insertion, the properties of the callables are as
  they were, and \<open>get_variables_width\<close> returns \<open>n + 1\<close>.
\<close>

theorem insert_name_offsets:
  assumes "init_symbol_table st0 = Some st"
    and "distinct (map fst items)" "distinct (map snd items)"
    and "length items < 2 ^ 26"
  shows "\<exists>rs st'. symtab_calls st (insert_names items) = Some (rs, st') \<and>
           (0 < avail st' \<longrightarrow>
              rs = replicate (length items) True \<and>
              map (\<lambda>kp. offset (props st' (snd kp))) (variables st0 items) =
                [1 ..< length (variables st0 items) + 1] \<and>
              (\<forall>kp\<in>set items. \<not> IS_VARIABLE (valtype (props st0 (snd kp))) \<longrightarrow>
                 props st' (snd kp) = props st0 (snd kp)) \<and>
              curr_offset st' = length (variables st0 items) + 1 \<and>
              get_variables_width st' = int (length (variables st0 items)) + 1)"
proof -
  from init_symbol_table_result [OF assms(1)] obtain t where
    t: "sym_table st = Some t" "ht_inv t" "max_loadfactor t = 3 / 4" "size_ht t = 13"
      "num_entries t = 0" "entries t = []" "cmp t = key_strcmp"
    and c: "curr_offset st = 1" and pr: "props st = props st0"
    by auto
  have sh: "ht_shape t" using t(2) by (simp add: ht_inv_def)
  have v: "variables st items = variables st0 items"
    by (simp add: variables_def pr)
  from ht_inserts_defined [OF t(2,3), of items "avail st"] t(4,5) assms(4)
  obtain codes t' a' where run: "ht_inserts t items (avail st) = Some (codes, t', a')"
    by auto
  from insert_names_run [OF t(1) sh run] obtain st' where
    calls: "symtab_calls st (insert_names items) = Some (map (\<lambda>r. r = EXIT_SUCCESS) codes, st')"
    and a': "avail st' = a'"
    by auto
  have "rs = replicate (length items) True \<and>
        map (\<lambda>kp. offset (props st' (snd kp))) (variables st0 items) =
          [1 ..< length (variables st0 items) + 1] \<and>
        (\<forall>kp\<in>set items. \<not> IS_VARIABLE (valtype (props st0 (snd kp))) \<longrightarrow>
           props st' (snd kp) = props st0 (snd kp)) \<and>
        curr_offset st' = length (variables st0 items) + 1 \<and>
        get_variables_width st' = int (length (variables st0 items)) + 1"
    if pos: "0 < avail st'" and rs: "rs = map (\<lambda>r. r = EXIT_SUCCESS) codes" for rs
  proof -
    have "keys_distinct (cmp t) (items @ entries t)"
      using keys_distinct_names [OF assms(2)] t(6,7) by simp
    from ht_inserts_distinct [OF t(2) run _ this] pos a' t(5)
    have "codes = replicate (length items) EXIT_SUCCESS"
      by simp
    then have rs': "rs = replicate (length items) True"
      by (simp add: rs)
    have "curr_offset st + length items < 2 ^ 32"
      using c assms(4) by simp
    from insert_names_offsets [OF calls [folded rs] rs' assms(3) this] have o:
      "curr_offset st' = curr_offset st + length (variables st0 items)"
      "map (\<lambda>kp. offset (props st' (snd kp))) (variables st0 items) =
         [curr_offset st ..< curr_offset st + length (variables st0 items)]"
      "\<forall>p. p \<notin> snd ` set (variables st0 items) \<longrightarrow> props st' p = props st0 p"
      by (simp_all add: v pr)
    have callables: "props st' (snd kp) = props st0 (snd kp)"
      if "kp \<in> set items" "\<not> IS_VARIABLE (valtype (props st0 (snd kp)))" for kp
    proof -
      have "snd kp \<notin> snd ` set (variables st0 items)"
      proof
        assume "snd kp \<in> snd ` set (variables st0 items)"
        then obtain kp' where kp': "kp' \<in> set items" "IS_VARIABLE (valtype (props st0 (snd kp')))"
          "snd kp' = snd kp"
          by (auto simp: variables_def)
        with that(2) show False by simp
      qed
      with o(3) show ?thesis by simp
    qed
    have "length (variables st0 items) \<le> length items"
      by (simp add: variables_def)
    with assms(4) have "int (length (variables st0 items)) + 1 \<le> INT_MAX"
      by (simp add: INT_MAX_def)
    with o(1) c have "get_variables_width st' = int (length (variables st0 items)) + 1"
      by (simp add: get_variables_width_def)
    with o(1,2) c rs' callables show ?thesis
      by simp
  qed
  with calls show ?thesis by simp
qed

theorem insert_name_offsets_witness:
  "map_option fst
     (symtab_calls
        (the (init_symbol_table (symtab_start (\<lambda>a. \<lparr>valtype = (if a = 2 then 8 else 4), offset = 0\<rparr>) 100)))
        (insert_names [(''x'', 1), (''f'', 2), (''y'', 3)])) = Some [True, True, True] \<and>
   map_option (\<lambda>r. map (\<lambda>p. offset (props (snd r) p)) [1, 2, 3])
     (symtab_calls
        (the (init_symbol_table (symtab_start (\<lambda>a. \<lparr>valtype = (if a = 2 then 8 else 4), offset = 0\<rparr>) 100)))
        (insert_names [(''x'', 1), (''f'', 2), (''y'', 3)])) = Some [1, 0, 2] \<and>
   map_option (\<lambda>r. get_variables_width (snd r))
     (symtab_calls
        (the (init_symbol_table (symtab_start (\<lambda>a. \<lparr>valtype = (if a = 2 then 8 else 4), offset = 0\<rparr>) 100)))
        (insert_names [(''x'', 1), (''f'', 2), (''y'', 3)])) = Some 3"
proof -
  define s0 where
    "s0 = symtab_start (\<lambda>a. \<lparr>valtype = (if a = 2 then 8 else 4), offset = 0\<rparr>) 100"
  define s where "s = the (init_symbol_table s0)"
  define items where "items = [(''x'', 1::nat), (''f'', 2), (''y'', 3)]"
  have init: "init_symbol_table s0 = Some s"
    by (simp add: s_def s0_def symtab_eval)
  have vars: "variables s0 items = [(''x'', 1), (''y'', 3)]"
    by (simp add: variables_def s0_def items_def symtab_eval)
  have store: "props s0 2 = \<lparr>valtype = 8, offset = 0\<rparr>" "\<not> IS_VARIABLE (valtype (props s0 2))"
    by (simp_all add: s0_def symtab_eval)
  have d: "distinct (map fst items)" "distinct (map snd items)" "length items < 2 ^ 26"
    by (simp_all add: items_def)
  have room: "\<exists>rs st'. symtab_calls s (insert_names items) = Some (rs, st') \<and> 0 < avail st'"
    by (simp add: s_def s0_def items_def insert_names_def symtab_eval)
  from insert_name_offsets [OF init d] room obtain rs st' where
    run: "symtab_calls s (insert_names items) = Some (rs, st')"
    and r: "rs = replicate (length items) True"
      "map (\<lambda>kp. offset (props st' (snd kp))) (variables s0 items) =
         [1 ..< length (variables s0 items) + 1]"
      "\<forall>kp\<in>set items. \<not> IS_VARIABLE (valtype (props s0 (snd kp))) \<longrightarrow>
         props st' (snd kp) = props s0 (snd kp)"
      "get_variables_width st' = int (length (variables s0 items)) + 1"
    by auto
  from r(3) store have "props st' 2 = \<lparr>valtype = 8, offset = 0\<rparr>"
    by (simp add: items_def)
  with r(1,2,4) [unfolded vars] have "rs = [True, True, True]"
    "map (\<lambda>p. offset (props st' p)) [1, 2, 3] = [1, 0, 2]"
    "get_variables_width st' = 3"
    by (simp_all add: items_def upt_conv_Cons)
  with run show ?thesis
    unfolding s_def s0_def items_def by simp
qed

section \<open>Number tokens\<close>

lemma wrap_int_id:
  assumes "0 \<le> x" "x \<le> INT_MAX"
  shows "wrap_int x = x"
  using assms
  by (simp add: wrap_int_def INT_MAX_def int_word_sint)

lemma looking_at_position [simp]:
  "looking_at (s\<lparr>position := p\<rparr>) cs = looking_at s cs"
  by (simp add: looking_at_def split: list.splits)

lemma next_char_looking_at:
  assumes "looking_at s (c # cs)"
  shows "looking_at (next_char s) cs" "reported (next_char s) = reported s"
  using assms
  by (auto simp: looking_at_def next_char_def getc_def Let_def split: list.splits)

lemma looking_at_ch:
  "looking_at s [] \<Longrightarrow> ch s = EOF"
  "looking_at s (c # cs) \<Longrightarrow> ch s = int (of_char c)"
  by (simp_all add: looking_at_def)

lemma get_token_whitespace_skips:
  assumes "list_all (\<lambda>c. isspace (int (of_char c))) ws"
    and "looking_at s (ws @ rest)"
    and "rest = [] \<or> \<not> isspace (int (of_char (hd rest)))"
  shows "looking_at (fst (get_token_whitespace s i)) rest \<and>
         reported (fst (get_token_whitespace s i)) = reported s"
  using assms
proof (induction ws arbitrary: s i)
  case Nil
  have "\<not> isspace (ch s)"
  proof (cases rest)
    case Nil
    with Nil.prems(2) show ?thesis
      by (simp add: looking_at_def isspace_def EOF_def)
  next
    case (Cons c cs)
    with Nil.prems(2,3) show ?thesis
      by (simp add: looking_at_def)
  qed
  with Nil.prems(2) show ?case
    by (simp add: get_token_whitespace.simps [of s i])
next
  case (Cons w ws)
  from Cons.prems(2) have c: "ch s = int (of_char w)"
    by (simp add: looking_at_def)
  from Cons.prems(1) have sp: "isspace (ch s)" and ws: "list_all (\<lambda>c. isspace (int (of_char c))) ws"
    by (simp_all add: c)
  from Cons.prems(2) have n: "looking_at (next_char s) (ws @ rest)"
    "reported (next_char s) = reported s"
    by (simp_all add: next_char_looking_at)
  have step: "looking_at (fst (get_token_whitespace ((next_char s)\<lparr>position := p\<rparr>) j)) rest \<and>
      reported (fst (get_token_whitespace ((next_char s)\<lparr>position := p\<rparr>) j)) = reported s"
    for p j
    using Cons.IH [OF ws _ Cons.prems(3), of "(next_char s)\<lparr>position := p\<rparr>" j] n
    by simp
  have step': "looking_at (fst (get_token_whitespace (next_char s) j)) rest \<and>
      reported (fst (get_token_whitespace (next_char s) j)) = reported s"
    for j
    using Cons.IH [OF ws n(1) Cons.prems(3), of j] n(2)
    by simp
  show ?case
    using sp step step'
    by (subst (1 2) get_token_whitespace.simps) (simp del: looking_at_position)
qed


lemma digits_grow:
  assumes "list_all (\<lambda>c. isdigit (int (of_char c))) ds" "0 \<le> v"
  shows "v \<le> foldl (\<lambda>v c. 10 * v + (int (of_char c) - 48)) v ds"
  using assms
proof (induction ds arbitrary: v)
  case Nil
  then show ?case by simp
next
  case (Cons c ds)
  from Cons.prems have "0 \<le> 10 * v + (int (of_char c) - 48)" "v \<le> 10 * v + (int (of_char c) - 48)"
    by (simp_all add: isdigit_def)
  with Cons.IH [of "10 * v + (int (of_char c) - 48)"] Cons.prems(1) show ?case
    by simp
qed

lemma process_number_loop_digits:
  assumes "isdigit (int (of_char c))" "list_all (\<lambda>c. isdigit (int (of_char c))) ds"
    and "looking_at s (c # ds @ rest)"
    and "rest = [] \<or> \<not> isdigit (int (of_char (hd rest)))"
    and "0 \<le> val"
    and "foldl (\<lambda>v c. 10 * v + (int (of_char c) - 48)) (10 * val + (int (of_char c) - 48)) ds \<le> INT_MAX"
  shows "snd (process_number_loop s val (int (of_char c) - 48)) =
           foldl (\<lambda>v c. 10 * v + (int (of_char c) - 48)) (10 * val + (int (of_char c) - 48)) ds \<and>
         looking_at (fst (process_number_loop s val (int (of_char c) - 48))) rest \<and>
         reported (fst (process_number_loop s val (int (of_char c) - 48))) = reported s"
  using assms
proof (induction ds arbitrary: s val c)
  case Nil
  let ?v = "10 * val + (int (of_char c) - 48)"
  from Nil.prems(1,5) have "0 \<le> ?v" by (simp add: isdigit_def)
  with Nil.prems(6) have w: "wrap_int ?v = ?v" "0 \<le> ?v" "?v \<le> INT_MAX"
    by (simp_all add: wrap_int_id)
  from Nil.prems(3) have n: "looking_at (next_char s) rest" "reported (next_char s) = reported s"
    by (simp_all add: next_char_looking_at)
  have "\<not> isdigit (ch (next_char s))"
  proof (cases rest)
    case Nil
    with n(1) show ?thesis by (simp add: looking_at_def isdigit_def EOF_def)
  next
    case (Cons r rs)
    with n(1) Nil.prems(4) show ?thesis by (simp add: looking_at_def)
  qed
  with w n show ?case
    by (subst (1 2 3) process_number_loop.simps) simp
next
  case (Cons d ds)
  let ?v = "10 * val + (int (of_char c) - 48)"
  from Cons.prems(1,5) have v0: "0 \<le> ?v" by (simp add: isdigit_def)
  from Cons.prems(2) have d: "isdigit (int (of_char d))"
    and ds: "list_all (\<lambda>c. isdigit (int (of_char c))) ds"
    by simp_all
  from d v0 have "0 \<le> 10 * ?v + (int (of_char d) - 48)" "?v \<le> 10 * ?v + (int (of_char d) - 48)"
    by (simp_all add: isdigit_def)
  with digits_grow [OF ds, of "10 * ?v + (int (of_char d) - 48)"] Cons.prems(6)
  have "?v \<le> INT_MAX" by simp
  with v0 have w: "wrap_int ?v = ?v" "0 \<le> ?v" "?v \<le> INT_MAX"
    by (simp_all add: wrap_int_id)
  from Cons.prems(3) have n: "looking_at (next_char s) (d # ds @ rest)"
    "reported (next_char s) = reported s"
    by (simp_all add: next_char_looking_at)
  then have cn: "ch (next_char s) = int (of_char d)"
    by (simp add: looking_at_def)
  from Cons.IH [OF d ds n(1) Cons.prems(4) v0] Cons.prems(6) n(2) have
    "snd (process_number_loop (next_char s) ?v (int (of_char d) - 48)) =
       foldl (\<lambda>v c. 10 * v + (int (of_char c) - 48)) ?v (d # ds) \<and>
     looking_at (fst (process_number_loop (next_char s) ?v (int (of_char d) - 48))) rest \<and>
     reported (fst (process_number_loop (next_char s) ?v (int (of_char d) - 48))) = reported s"
    by simp
  with w d cn show ?case
    by (subst (1 2 3) process_number_loop.simps) simp
qed


lemma reported_position [simp]: "reported (s\<lparr>position := p\<rparr>) = reported s"
  by simp

lemma get_token_number:
  assumes "list_all (\<lambda>c. isspace (int (of_char c))) ws"
    and "ds \<noteq> []" "list_all (\<lambda>c. isdigit (int (of_char c))) ds"
    and "rest = [] \<or> \<not> isdigit (int (of_char (hd rest)))"
    and "looking_at s0 (ws @ ds @ rest)"
    and "decimal ds \<le> INT_MAX"
  shows "\<exists>s1. get_token s0 token =
                 Some (Inr (token\<lparr>tok_type := TOK_NUM, tok_value := decimal ds\<rparr>, s1)) \<and>
              looking_at s1 rest \<and> reported s1 = reported s0"
proof -
  from assms(2) obtain d ds' where ds: "ds = d # ds'" by (cases ds) auto
  with assms(3) have d: "isdigit (int (of_char d))"
    and ds': "list_all (\<lambda>c. isdigit (int (of_char c))) ds'"
    by simp_all
  define s where
    "s = (if snd (get_token_whitespace s0 0) = 0
          then (fst (get_token_whitespace s0 0))
                 \<lparr>position := \<lparr>line = ln (fst (get_token_whitespace s0 0)),
                               col = cn (fst (get_token_whitespace s0 0))\<rparr>\<rparr>
          else fst (get_token_whitespace s0 0))"
  from d have "\<not> isspace (int (of_char (hd (ds @ rest))))"
    by (simp add: ds isdigit_def isspace_def)
  from get_token_whitespace_skips [OF assms(1,5), of 0] this have
    s: "looking_at s (d # ds' @ rest)" "reported s = reported s0"
    by (simp_all add: s_def ds)
  then have c: "ch s = int (of_char d)"
    by (simp add: looking_at_def)
  with d have cls: "ch s \<noteq> EOF" "\<not> isalpha (ch s)" "ch s \<noteq> 95" "isdigit (ch s)"
    by (simp_all add: isdigit_def isalpha_def EOF_def)
  from assms(6) have "foldl (\<lambda>v c. 10 * v + (int (of_char c) - 48)) (10 * 0 + (int (of_char d) - 48)) ds' \<le> INT_MAX"
    by (simp add: decimal_def ds)
  from process_number_loop_digits [OF d ds' s(1) assms(4) order_refl this] have
    "snd (process_number_loop s 0 (ch s - 48)) = decimal ds"
    "looking_at (fst (process_number_loop s 0 (ch s - 48))) rest"
    "reported (fst (process_number_loop s 0 (ch s - 48))) = reported s0"
    by (simp_all add: decimal_def ds c s(2))
  then have "process_number s token =
      (token\<lparr>tok_type := TOK_NUM, tok_value := decimal ds\<rparr>, fst (process_number_loop s 0 (ch s - 48)))"
    "looking_at (snd (process_number s token)) rest"
    "reported (snd (process_number s token)) = reported s0"
    by (simp_all add: process_number_def case_prod_beta)
  moreover have "get_token s0 token = Some (Inr (process_number s token))"
    using cls by (subst get_token.simps) (simp add: s_def [symmetric] Let_def)
  ultimately show ?thesis
    by simp
qed

lemma get_token_eof:
  assumes "list_all (\<lambda>c. isspace (int (of_char c))) ws" "looking_at s0 ws"
  shows "\<exists>s1. get_token s0 token = Some (Inr (token\<lparr>tok_type := TOK_EOF\<rparr>, s1)) \<and>
              ch s1 = EOF \<and> reported s1 = reported s0"
proof -
  define s where
    "s = (if snd (get_token_whitespace s0 0) = 0
          then (fst (get_token_whitespace s0 0))
                 \<lparr>position := \<lparr>line = ln (fst (get_token_whitespace s0 0)),
                               col = cn (fst (get_token_whitespace s0 0))\<rparr>\<rparr>
          else fst (get_token_whitespace s0 0))"
  from get_token_whitespace_skips [OF assms(1), of s0 "[]" 0] assms(2) have
    s: "looking_at s []" "reported s = reported s0"
    by (simp_all add: s_def)
  then have c: "ch s = EOF"
    by (simp add: looking_at_def)
  then have "get_token s0 token = Some (Inr (token\<lparr>tok_type := TOK_EOF\<rparr>, s))"
    by (subst get_token.simps) (simp add: s_def [symmetric] Let_def)
  with c s(2) show ?thesis by simp
qed

lemma init_scanner_looking_at:
  "looking_at (init_scanner s input) input" "reported (init_scanner s input) = reported s"
  by (simp_all add: init_scanner_def next_char_def getc_def Let_def looking_at_def
                split: list.splits)

text \<open>
  C8. The input consists of whitespace, the digits of one decimal literal whose value
  \<open>v\<close> is at most \<open>INT_MAX\<close>, and whitespace again. Then the first call of \<open>get_token\<close>
  returns, with a token of type \<open>TOK_NUM\<close> and value \<open>v\<close>, and the second call returns
  with the type \<open>TOK_EOF\<close>; the scanner is at end-of-input and no diagnostic was
  reported.
\<close>

theorem number_token_value:
  assumes "list_all (\<lambda>c. isspace (int (of_char c))) ws1"
    and "list_all (\<lambda>c. isspace (int (of_char c))) ws2"
    and "ds \<noteq> []" "list_all (\<lambda>c. isdigit (int (of_char c))) ds"
    and "decimal ds \<le> INT_MAX"
  shows "\<exists>s2. get_tokens 2 (init_scanner s (ws1 @ ds @ ws2)) token =
                 Some (Inr ([token\<lparr>tok_type := TOK_NUM, tok_value := decimal ds\<rparr>,
                             token\<lparr>tok_type := TOK_EOF, tok_value := decimal ds\<rparr>], s2)) \<and>
              ch s2 = EOF \<and> reported s2 = reported s"
proof -
  have "ws2 = [] \<or> \<not> isdigit (int (of_char (hd ws2)))"
    using assms(2) by (cases ws2) (auto simp: isdigit_def isspace_def)
  from get_token_number [OF assms(1,3,4) this init_scanner_looking_at(1) assms(5), of s token]
  obtain s1 where
    1: "get_token (init_scanner s (ws1 @ ds @ ws2)) token =
          Some (Inr (token\<lparr>tok_type := TOK_NUM, tok_value := decimal ds\<rparr>, s1))"
    and s1: "looking_at s1 ws2" "reported s1 = reported s"
    by (auto simp: init_scanner_looking_at(2))
  from get_token_eof [OF assms(2) s1(1), of "token\<lparr>tok_type := TOK_NUM, tok_value := decimal ds\<rparr>"]
  obtain s2 where
    2: "get_token s1 (token\<lparr>tok_type := TOK_NUM, tok_value := decimal ds\<rparr>) =
          Some (Inr (token\<lparr>tok_type := TOK_EOF, tok_value := decimal ds\<rparr>, s2))"
    and s2: "ch s2 = EOF" "reported s2 = reported s"
    by (auto simp: s1(2))
  from 1 2 s2 show ?thesis
    by (simp add: numeral_2_eq_2)
qed

theorem number_token_value_witness:
  "get_tokens 2 (init_scanner scanner_start ([CHR '' ''] @ ''2147483647'' @ [CHR '' '', CHR 0x0A])) token_start =
     Some (Inr ([token_start\<lparr>tok_type := TOK_NUM, tok_value := 2147483647\<rparr>,
                 token_start\<lparr>tok_type := TOK_EOF, tok_value := 2147483647\<rparr>],
                \<lparr>src_file = [], ch = EOF, cn = 1, ln = 2, posit = \<lparr>line = 1, col = 12\<rparr>,
                 position = \<lparr>line = 1, col = 13\<rparr>, reported = [], usable = id\<rparr>))"
proof -
  have "list_all (\<lambda>c. isspace (int (of_char c))) [CHR '' '']"
    "list_all (\<lambda>c. isspace (int (of_char c))) [CHR '' '', CHR 0x0A]"
    "''2147483647'' \<noteq> []" "list_all (\<lambda>c. isdigit (int (of_char c))) ''2147483647''"
    "decimal ''2147483647'' \<le> INT_MAX" "decimal ''2147483647'' = 2147483647"
    by (simp_all add: isspace_def isdigit_def decimal_def INT_MAX_def)
  from number_token_value [OF this(1-5), of scanner_start token_start] this(6)
  obtain s2 where
    "get_tokens 2 (init_scanner scanner_start ([CHR '' ''] @ ''2147483647'' @ [CHR '' '', CHR 0x0A])) token_start =
       Some (Inr ([token_start\<lparr>tok_type := TOK_NUM, tok_value := 2147483647\<rparr>,
                   token_start\<lparr>tok_type := TOK_EOF, tok_value := 2147483647\<rparr>], s2))"
    by auto
  moreover have "snd (projr (the (get_tokens 2
       (init_scanner scanner_start ([CHR '' ''] @ ''2147483647'' @ [CHR '' '', CHR 0x0A])) token_start))) =
     \<lparr>src_file = [], ch = EOF, cn = 1, ln = 2, posit = \<lparr>line = 1, col = 12\<rparr>,
      position = \<lparr>line = 1, col = 13\<rparr>, reported = [], usable = id\<rparr>"
    by (simp add: numeral_2_eq_2 scanner_eval)
  ultimately show ?thesis
    by simp
qed

section \<open>String tokens\<close>

lemma process_string_overrun:
  "usable s MAX_INIT_STR_LEN \<le> MAX_INIT_STR_LEN \<Longrightarrow> process_string s token = None"
  by (simp add: process_string_def)

lemma of_char_code_int:
  "(of_char c :: int) = 34 \<longleftrightarrow> c = CHR 0x22" "(of_char c :: int) = 92 \<longleftrightarrow> c = CHR 0x5C"
proof -
  have "c = char_of k" if "(of_char c :: int) = k" for k
  proof -
    have "c = char_of (of_char c :: int)" by simp
    with that show ?thesis by (simp only:)
  qed
  from this [of 34] this [of 92]
  show "(of_char c :: int) = 34 \<longleftrightarrow> c = CHR 0x22" "(of_char c :: int) = 92 \<longleftrightarrow> c = CHR 0x5C"
    by (auto simp: char_of_def)
qed

lemma of_char_code:
  "(of_char c :: nat) = 34 \<longleftrightarrow> c = CHR 0x22" "(of_char c :: nat) = 92 \<longleftrightarrow> c = CHR 0x5C"
proof -
  have e: "(of_char c :: int) = int (of_char c)" by (simp only: of_nat_of_char)
  have "((of_char c :: nat) = k) = ((of_char c :: int) = int k)" for k
    unfolding e by (simp only: of_nat_eq_iff)
  from this [of 34] this [of 92] of_char_code_int [of c]
  show "(of_char c :: nat) = 34 \<longleftrightarrow> c = CHR 0x22" "(of_char c :: nat) = 92 \<longleftrightarrow> c = CHR 0x5C"
    by simp_all
qed

lemma looking_at_not_EOF: "looking_at s (c # cs) \<Longrightarrow> ch s \<noteq> EOF"
  by (simp add: looking_at_def EOF_def)

lemma usable_next_char [simp]: "usable (next_char s) = usable s"
  by (simp add: next_char_def Let_def)

lemma process_string_plain:
  assumes "plain_char c" "looking_at s (c # x # xs)"
    and "length acc < nstring" "nstring < cap"
  shows "process_string_loop s acc nstring cap =
           process_string_loop
             ((next_char s)\<lparr>position := \<lparr>line = ln (next_char s), col = cn (next_char s)\<rparr>\<rparr>)
             (acc @ [c]) nstring cap"
proof -
  from assms(2) have c: "ch s = int (of_char c)"
    by (simp add: looking_at_def)
  from assms(1) have cl: "ch s \<noteq> 34" "ch s \<noteq> 92" "isascii (ch s)" "\<not> ch s < 32" "ch s \<noteq> 10"
    "char_of (ch s) = c"
    unfolding c by (simp_all add: plain_char_def of_char_code isascii_def)
  from next_char_looking_at(1) [OF assms(2)] have "ch (next_char s) \<noteq> EOF"
    by (rule looking_at_not_EOF)
  with cl assms(3,4) show ?thesis
    by (subst process_string_loop.simps) (simp add: process_string_escape_def)
qed


lemma process_string_escaped:
  assumes "d = CHR ''n'' \<or> d = CHR ''t'' \<or> d = CHR 0x22 \<or> d = CHR 0x5C"
    and "looking_at s (CHR 0x5C # d # x # xs)"
    and "length acc + 1 < nstring" "nstring < cap"
  shows "process_string_loop s acc nstring cap =
           process_string_loop
             ((next_char (next_char s))
                \<lparr>position := \<lparr>line = ln (next_char (next_char s)), col = cn (next_char (next_char s))\<rparr>\<rparr>)
             (acc @ [CHR 0x5C, d]) nstring cap"
proof -
  from assms(2) have c: "ch s = 92"
    by (simp add: looking_at_def)
  note n1 = next_char_looking_at(1) [OF assms(2)]
  then have d: "ch (next_char s) = int (of_char d)"
    by (simp add: looking_at_def)
  with assms(1) have esc: "ch (next_char s) = 110 \<or> ch (next_char s) = 116 \<or>
      ch (next_char s) = 34 \<or> ch (next_char s) = 92"
    by auto
  have cd: "char_of (ch (next_char s)) = d"
    unfolding d by simp
  from next_char_looking_at(1) [OF n1] have "ch (next_char (next_char s)) \<noteq> EOF"
    by (rule looking_at_not_EOF)
  with c esc cd assms(3,4) show ?thesis
    by (subst process_string_loop.simps) (simp add: process_string_escape_def isascii_def)
qed

lemma process_string_loop_body:
  assumes "string_body body" "looking_at s (body @ CHR 0x22 # rest)"
    and "length acc + length body \<le> nstring" "nstring < cap"
  shows "\<exists>s'. process_string_loop s acc nstring cap = Some (Inr (s', acc @ body)) \<and>
              looking_at s' (CHR 0x22 # rest) \<and> reported s' = reported s \<and>
              usable s' = usable s"
  using assms
proof (induction body arbitrary: s acc rule: string_body.induct)
  case 1
  then have "ch s = 34"
    by (simp add: looking_at_def)
  with 1 show ?case
    by (subst process_string_loop.simps) simp
next
  case (2 c)
  let ?s1 = "(next_char s)\<lparr>position := \<lparr>line = ln (next_char s), col = cn (next_char s)\<rparr>\<rparr>"
  from 2 have step: "process_string_loop s acc nstring cap = process_string_loop ?s1 (acc @ [c]) nstring cap"
    by (intro process_string_plain [where x = "CHR 0x22" and xs = rest]) simp_all
  from 2(2) have l: "looking_at ?s1 (CHR 0x22 # rest)" "reported ?s1 = reported s" "usable ?s1 = usable s"
    by (simp_all add: next_char_looking_at)
  then have "ch ?s1 = 34"
    by (simp add: looking_at_def)
  then have "process_string_loop ?s1 (acc @ [c]) nstring cap = Some (Inr (?s1, acc @ [c]))"
    by (subst process_string_loop.simps) simp
  with step l show ?case
    by simp
next
  case (3 c d cs)
  show ?case
  proof (cases "c = CHR 0x5C")
    case True
    let ?s2 = "(next_char (next_char s))
        \<lparr>position := \<lparr>line = ln (next_char (next_char s)), col = cn (next_char (next_char s))\<rparr>\<rparr>"
    from 3(3) True have body: "d = CHR ''n'' \<or> d = CHR ''t'' \<or> d = CHR 0x22 \<or> d = CHR 0x5C"
      "string_body cs"
      by simp_all
    obtain x xs where x: "cs @ CHR 0x22 # rest = x # xs"
      by (cases cs) auto
    from 3(4) have la: "looking_at s (CHR 0x5C # d # x # xs)"
      by (simp add: True x)
    from 3(5) have len: "length acc + 1 < nstring" "length (acc @ [CHR 0x5C, d]) + length cs \<le> nstring"
      by simp_all
    from process_string_escaped [OF body(1) la len(1) 3(6)] have
      step: "process_string_loop s acc nstring cap =
               process_string_loop ?s2 (acc @ [CHR 0x5C, d]) nstring cap" .
    from next_char_looking_at [OF next_char_looking_at(1) [OF la]] next_char_looking_at(2) [OF la]
    have l: "looking_at ?s2 (cs @ CHR 0x22 # rest)" "reported ?s2 = reported s" "usable ?s2 = usable s"
      by (simp_all add: x)
    from "3.IH"(1) [OF True body(2) l(1) len(2) 3(6)] step l True show ?thesis
      by simp
  next
    case False
    let ?s1 = "(next_char s)\<lparr>position := \<lparr>line = ln (next_char s), col = cn (next_char s)\<rparr>\<rparr>"
    from 3(3) False have body: "plain_char c" "string_body (d # cs)"
      by simp_all
    from 3(4) have la: "looking_at s (c # d # (cs @ CHR 0x22 # rest))"
      by simp
    from 3(5) have len: "length acc < nstring" "length (acc @ [c]) + length (d # cs) \<le> nstring"
      by simp_all
    from process_string_plain [OF body(1) la len(1) 3(6)] have
      step: "process_string_loop s acc nstring cap = process_string_loop ?s1 (acc @ [c]) nstring cap" .
    from next_char_looking_at [OF la]
    have l: "looking_at ?s1 ((d # cs) @ CHR 0x22 # rest)" "reported ?s1 = reported s"
      "usable ?s1 = usable s"
      by simp_all
    from "3.IH"(2) [OF False body(2) l(1) len(2) 3(6)] step l show ?thesis
      by simp
  qed
qed


lemma process_string_body:
  assumes "string_body body" "looking_at s (body @ CHR 0x22 # rest)"
    and "length body \<le> MAX_INIT_STR_LEN" "MAX_INIT_STR_LEN < usable s MAX_INIT_STR_LEN"
  shows "\<exists>s'. process_string s token =
                 Some (Inr (token\<lparr>tok_type := TOK_STR, tok_string := body\<rparr>, s')) \<and>
              looking_at s' rest \<and> reported s' = reported s \<and> usable s' = usable s"
proof -
  from process_string_loop_body [OF assms(1,2), of "[]" MAX_INIT_STR_LEN "usable s MAX_INIT_STR_LEN"]
    assms(3,4)
  obtain s1 where
    loop: "process_string_loop s [] MAX_INIT_STR_LEN (usable s MAX_INIT_STR_LEN) = Some (Inr (s1, body))"
    and s1: "looking_at s1 (CHR 0x22 # rest)" "reported s1 = reported s" "usable s1 = usable s"
    by auto
  from loop assms(3,4) have
    "process_string s token =
       Some (Inr (token\<lparr>tok_type := TOK_STR, tok_string := body\<rparr>, next_char s1))"
    by (simp add: process_string_def)
  with next_char_looking_at [OF s1(1)] s1(2,3) show ?thesis
    by simp
qed

lemma usable_get_token_whitespace:
  "usable (fst (get_token_whitespace s i)) = usable s"
proof (induction s i rule: get_token_whitespace.induct)
  case (1 s is_it)
  show ?case
    by (subst get_token_whitespace.simps) (simp add: 1)
qed

lemma usable_init_scanner [simp]: "usable (init_scanner s input) = usable s"
  by (simp add: init_scanner_def)

lemma get_token_string:
  assumes "string_body body" "looking_at s0 (CHR 0x22 # body @ CHR 0x22 # rest)"
    and "length body \<le> MAX_INIT_STR_LEN" "MAX_INIT_STR_LEN < usable s0 MAX_INIT_STR_LEN"
  shows "\<exists>s1. get_token s0 token =
                 Some (Inr (token\<lparr>tok_type := TOK_STR, tok_string := body\<rparr>, s1)) \<and>
              looking_at s1 rest \<and> reported s1 = reported s0 \<and> usable s1 = usable s0"
proof -
  define s where
    "s = (if snd (get_token_whitespace s0 0) = 0
          then (fst (get_token_whitespace s0 0))
                 \<lparr>position := \<lparr>line = ln (fst (get_token_whitespace s0 0)),
                               col = cn (fst (get_token_whitespace s0 0))\<rparr>\<rparr>
          else fst (get_token_whitespace s0 0))"
  have "\<not> isspace (int (of_char (hd (CHR 0x22 # body @ CHR 0x22 # rest))))"
    by (simp add: isspace_def)
  from get_token_whitespace_skips [of "[]" s0 "CHR 0x22 # body @ CHR 0x22 # rest" 0] assms(2) this
  have s: "looking_at s (CHR 0x22 # body @ CHR 0x22 # rest)" "reported s = reported s0"
    "usable s = usable s0"
    by (simp_all add: s_def usable_get_token_whitespace)
  then have c: "ch s = 34"
    by (simp add: looking_at_def)
  then have cls: "ch s \<noteq> EOF" "\<not> isalpha (ch s)" "ch s \<noteq> 95" "\<not> isdigit (ch s)"
    by (simp_all add: isdigit_def isalpha_def EOF_def)
  let ?s' = "next_char (s\<lparr>position := (position s)\<lparr>col := cn s\<rparr>\<rparr>)"
  have "looking_at (s\<lparr>position := (position s)\<lparr>col := cn s\<rparr>\<rparr>) (CHR 0x22 # body @ CHR 0x22 # rest)"
    using s(1) by simp
  from next_char_looking_at [OF this] s(2,3) have
    s': "looking_at ?s' (body @ CHR 0x22 # rest)" "reported ?s' = reported s0" "usable ?s' = usable s0"
    by simp_all
  from process_string_body [OF assms(1) s'(1) assms(3), of token] assms(4) s'(2,3)
  obtain s1 where
    p: "process_string ?s' token = Some (Inr (token\<lparr>tok_type := TOK_STR, tok_string := body\<rparr>, s1))"
    and s1: "looking_at s1 rest" "reported s1 = reported s0" "usable s1 = usable s0"
    by auto
  have "get_token s0 token =
      Some (Inr (token\<lparr>tok_type := TOK_STR, tok_string := body\<rparr>,
                 s1\<lparr>position := (position s)\<lparr>col := cn s\<rparr>\<rparr>))"
    using cls c p by (subst get_token.simps) (simp add: s_def [symmetric] Let_def)
  with s1 show ?thesis
    by simp
qed

text \<open>
  C2, as the code has it. The input is a string literal and nothing else: a quote, a body
  of at most \<open>MAX_INIT_STR_LEN\<close> characters made of printable characters other than the
  quote and the backslash and of the escapes \<open>\n\<close>, \<open>\t\<close>, \<open>\"\<close> and \<open>\\\<close>, and
  a quote. Where the block \<open>process_string\<close> obtains has room for the byte it stores at
  index \<open>MAX_INIT_STR_LEN\<close>, the first call of \<open>get_token\<close> returns a string token
  whose payload is the body as it is written, every escape still a backslash and a
  character, and the second call returns the end-of-input token; the scanner is then at
  end-of-input and has reported nothing.
\<close>

theorem string_token_keeps_escapes:
  assumes "string_body body" "length body \<le> MAX_INIT_STR_LEN"
    and "MAX_INIT_STR_LEN < usable s MAX_INIT_STR_LEN"
  shows "\<exists>s2. get_tokens 2 (init_scanner s (CHR 0x22 # body @ [CHR 0x22])) token =
                 Some (Inr ([token\<lparr>tok_type := TOK_STR, tok_string := body\<rparr>,
                             token\<lparr>tok_type := TOK_EOF, tok_string := body\<rparr>], s2)) \<and>
              ch s2 = EOF \<and> reported s2 = reported s"
proof -
  have "looking_at (init_scanner s (CHR 0x22 # body @ [CHR 0x22])) (CHR 0x22 # body @ CHR 0x22 # [])"
    using init_scanner_looking_at(1) [of s "CHR 0x22 # body @ [CHR 0x22]"] by simp
  from get_token_string [OF assms(1) this assms(2), of token] assms(3)
  obtain s1 where
    1: "get_token (init_scanner s (CHR 0x22 # body @ [CHR 0x22])) token =
          Some (Inr (token\<lparr>tok_type := TOK_STR, tok_string := body\<rparr>, s1))"
    and s1: "looking_at s1 []" "reported s1 = reported s"
    by (auto simp: init_scanner_looking_at(2))
  from get_token_eof [of "[]" s1 "token\<lparr>tok_type := TOK_STR, tok_string := body\<rparr>"] s1
  obtain s2 where
    2: "get_token s1 (token\<lparr>tok_type := TOK_STR, tok_string := body\<rparr>) =
          Some (Inr (token\<lparr>tok_type := TOK_EOF, tok_string := body\<rparr>, s2))"
    and s2: "ch s2 = EOF" "reported s2 = reported s"
    by auto
  from 1 2 s2 show ?thesis
    by (simp add: numeral_2_eq_2)
qed

theorem string_token_keeps_escapes_witness:
  "get_tokens 2
     (init_scanner (scanner_start\<lparr>usable := Suc\<rparr>)
        [CHR 0x22, CHR ''a'', CHR ''b'', CHR 0x5C, CHR 0x22, CHR ''c'', CHR 0x22])
     token_start =
   Some (Inr ([token_start\<lparr>tok_type := TOK_STR,
                            tok_string := [CHR ''a'', CHR ''b'', CHR 0x5C, CHR 0x22, CHR ''c'']\<rparr>,
               token_start\<lparr>tok_type := TOK_EOF,
                            tok_string := [CHR ''a'', CHR ''b'', CHR 0x5C, CHR 0x22, CHR ''c'']\<rparr>],
              \<lparr>src_file = [], ch = EOF, cn = 8, ln = 1, posit = \<lparr>line = 0, col = 0\<rparr>,
               position = \<lparr>line = 1, col = 8\<rparr>, reported = [], usable = Suc\<rparr>))"
proof -
  define body where "body = [CHR ''a'', CHR ''b'', CHR 0x5C, CHR 0x22, CHR ''c'']"
  define s where "s = scanner_start\<lparr>usable := Suc\<rparr>"
  have "string_body body" "length body \<le> MAX_INIT_STR_LEN"
    "MAX_INIT_STR_LEN < usable s MAX_INIT_STR_LEN"
    by (simp_all add: body_def s_def plain_char_def MAX_INIT_STR_LEN_def scanner_start_def)
  from string_token_keeps_escapes [OF this, of token_start] obtain s2 where
    "get_tokens 2 (init_scanner s (CHR 0x22 # body @ [CHR 0x22])) token_start =
       Some (Inr ([token_start\<lparr>tok_type := TOK_STR, tok_string := body\<rparr>,
                   token_start\<lparr>tok_type := TOK_EOF, tok_string := body\<rparr>], s2))"
    by auto
  moreover have "snd (projr (the (get_tokens 2 (init_scanner s (CHR 0x22 # body @ [CHR 0x22])) token_start))) =
     \<lparr>src_file = [], ch = EOF, cn = 8, ln = 1, posit = \<lparr>line = 0, col = 0\<rparr>,
      position = \<lparr>line = 1, col = 8\<rparr>, reported = [], usable = Suc\<rparr>"
    by (simp add: body_def s_def numeral_2_eq_2 scanner_eval)
  ultimately show ?thesis
    unfolding body_def s_def by simp
qed

text \<open>
  C2, as the claim states it, says that the payload is the four characters \<open>ab"c\<close>.
  It is not: where the block has a byte more than was requested, the payload has five
  characters, and with a block of exactly the bytes requested the behaviour of
  \<open>process_string\<close> is undefined.
\<close>

theorem string_token_normalized_counterexample:
  "map_option (tok_string \<circ> fst \<circ> projr)
     (get_token
        (init_scanner (scanner_start\<lparr>usable := Suc\<rparr>)
           [CHR 0x22, CHR ''a'', CHR ''b'', CHR 0x5C, CHR 0x22, CHR ''c'', CHR 0x22])
        token_start)
     = Some [CHR ''a'', CHR ''b'', CHR 0x5C, CHR 0x22, CHR ''c''] \<and>
   [CHR ''a'', CHR ''b'', CHR 0x5C, CHR 0x22, CHR ''c''] \<noteq> [CHR ''a'', CHR ''b'', CHR 0x22, CHR ''c''] \<and>
   get_token
     (init_scanner scanner_start
        [CHR 0x22, CHR ''a'', CHR ''b'', CHR 0x5C, CHR 0x22, CHR ''c'', CHR 0x22])
     token_start = None"
  by (simp add: scanner_eval)

end
